theory Spec2Isabelle
  imports Complex_Main
begin

section \<open>Values and exceptions\<close>

text \<open>
  The Python exceptions that the modelled code can raise. \<open>AssertionError\<close> comes from
  the \<open>assert\<close> statements of \<open>common.py\<close>, \<open>KeyError\<close> from its dictionaries,
  \<open>AttributeError\<close> from \<open>self._manager\<close> in a service that is not registered,
  \<open>IndexError\<close> from list indexing, \<open>ValueError\<close>, \<open>ZeroDivisionError\<close> and
  \<open>OverflowError\<close> from \<open>int(...)\<close> and the true division in \<open>client_update\<close>.
\<close>

datatype error =
    AssertionError | KeyError | AttributeError
  | IndexError | ValueError | ZeroDivisionError | OverflowError

text \<open>
  A Python float. The model keeps the exact rational value of a finite float: Python
  rounds every literal and every quotient to the nearest IEEE double, which the model
  does not do. The two infinities and NaN are values of their own.
\<close>

datatype pyfloat = Finite rat | PosInf | NegInf | NaN

text \<open>
  The \<open>progress\<close> field of a worker record is declared \<open>float | str\<close> and is
  initialised with the integer \<open>0\<close>.
\<close>

datatype progress = PInt int | PFloat pyfloat | PStr string

section \<open>The worker registry (\<open>ClientService\<close> of \<open>server.py\<close>)\<close>

text \<open>
  The dataclass \<open>ClientService.Client\<close>. \<open>status\<close> is the integer the code stores:
  0 is shown as recording, 1 as success, 2 as error (the list \<open>statuses\<close> of
  \<open>ScreenService.on_refresh\<close>). \<open>listidx\<close> is \<open>len(self.clients)\<close> at creation.
\<close>

record client =
  idx :: int
  status :: int
  name :: string
  progress :: progress
  listidx :: nat

definition Recording :: int where [simp]: "Recording = 0"
definition Success :: int where [simp]: "Success = 1"
definition Error :: int where [simp]: "Error = 2"

text \<open>
  The text of a log line, kept as the format and its fields instead of the rendered
  f-string:
  \<^item> \<open>Msg_client_join c\<close> is \<^verbatim>\<open>f'client-join {c}'\<close>;
  \<^item> \<open>Msg_progressed i\<close> is \<^verbatim>\<open>f'client {idx} progressed without joining'\<close>;
  \<^item> \<open>Msg_done i\<close> is \<^verbatim>\<open>f'client {idx} was done without joining'\<close>;
  \<^item> \<open>Msg_left_not_done i n\<close> is \<^verbatim>\<open>f'client {idx} ({c.name}) left without being done'\<close>;
  \<^item> \<open>Msg_left i\<close> is \<^verbatim>\<open>f'client {idx} left without joining'\<close>.
\<close>

datatype logmsg =
    Msg_client_join client
  | Msg_progressed int
  | Msg_done int
  | Msg_left_not_done int string
  | Msg_left int

text \<open>
  What a registry handler publishes: \<open>Refresh k\<close> is
  \<^verbatim>\<open>self.pub('client-refresh', self.clients[k])\<close>, whose payload is the record object
  at position \<open>k\<close> of the list (a reference, not a copy; records are never removed or
  reordered, so the position identifies the object); \<open>Log level msg\<close> is
  \<^verbatim>\<open>self.pub('log', (level, msg))\<close>.
\<close>

datatype out = Refresh nat | Log int logmsg

text \<open>
  A handler mutates the list in place and may raise after it has done so; both outcomes
  carry the list and the publications made so far. \<open>Inl\<close> is the raised exception.
\<close>

type_synonym registry = "client list \<times> out list"
type_synonym result = "error \<times> registry + registry"

text \<open>
  \<open>get_client\<close>: the linear scan, returning the first record whose \<open>idx\<close> matches
  (here its position in the list, through which the handlers then mutate it), or
  \<open>None\<close> when the loop falls through.
\<close>

fun get_client :: "client list \<Rightarrow> int \<Rightarrow> nat option" where
  "get_client [] i = None"
| "get_client (c # cs) i = (if idx c = i then Some 0 else map_option Suc (get_client cs i))"

text \<open>
  \<open>_refresh(k)\<close> reads \<open>self.clients[k]\<close> and publishes it; the read raises
  \<open>IndexError\<close> beyond the end of the list.
\<close>

definition refresh :: "registry \<Rightarrow> nat \<Rightarrow> result" where
  "refresh r k =
     (case r of (cs, outs) \<Rightarrow>
        if k < length cs then Inr (cs, outs @ [Refresh k]) else Inl (IndexError, cs, outs))"

text \<open>\<open>on_client_join\<close>: reuse the first record with \<open>idx == -1\<close>, else append.\<close>

definition on_client_join :: "int \<times> string \<Rightarrow> registry \<Rightarrow> result" where
  "on_client_join clientobj r =
     (case clientobj of (i, prefix) \<Rightarrow>
      case r of (cs, outs) \<Rightarrow>
        (case get_client cs (- 1) of
           Some k \<Rightarrow>
             let cs' = cs[k := (cs ! k)\<lparr>idx := i, status := 0, progress := PInt 0\<rparr>]
             in refresh (cs', outs) (listidx (cs' ! k))
         | None \<Rightarrow>
             let c = \<lparr>idx = i, status = 0, name = prefix, progress = PInt 0,
                      listidx = length cs\<rparr>
             in refresh (cs @ [c], outs @ [Log 0 (Msg_client_join c)]) (listidx c)))"

definition on_client_progress :: "int \<times> progress \<Rightarrow> registry \<Rightarrow> result" where
  "on_client_progress clientobj r =
     (case clientobj of (i, p) \<Rightarrow>
      case r of (cs, outs) \<Rightarrow>
        (case get_client cs i of
           Some k \<Rightarrow>
             let cs' = cs[k := (cs ! k)\<lparr>progress := p\<rparr>]
             in refresh (cs', outs) (listidx (cs' ! k))
         | None \<Rightarrow> Inr (cs, outs @ [Log 2 (Msg_progressed i)])))"

definition on_client_done :: "int \<Rightarrow> registry \<Rightarrow> result" where
  "on_client_done i r =
     (case r of (cs, outs) \<Rightarrow>
        (case get_client cs i of
           Some k \<Rightarrow>
             let cs' = cs[k := (cs ! k)\<lparr>status := 1\<rparr>]
             in refresh (cs', outs) (listidx (cs' ! k))
         | None \<Rightarrow> Inr (cs, outs @ [Log 2 (Msg_done i)])))"

definition on_client_leave :: "int \<Rightarrow> registry \<Rightarrow> result" where
  "on_client_leave i r =
     (case r of (cs, outs) \<Rightarrow>
        (case get_client cs i of
           Some k \<Rightarrow>
             let c = (cs ! k)\<lparr>idx := - 1\<rparr> in
             if status c \<noteq> 1
             then refresh (cs[k := c\<lparr>status := 2\<rparr>],
                           outs @ [Log 2 (Msg_left_not_done i (name c))]) (listidx c)
             else refresh (cs[k := c], outs) (listidx c)
         | None \<Rightarrow> Inr (cs, outs @ [Log 2 (Msg_left i)])))"

text \<open>
  \<open>on_rename\<close> indexes the list with the integer it is given, as Python does: a
  negative index counts from the end, and an index outside the list raises.
\<close>

definition on_rename :: "int \<times> string \<Rightarrow> registry \<Rightarrow> result" where
  "on_rename clientobj r =
     (case clientobj of (i, newname) \<Rightarrow>
      case r of (cs, outs) \<Rightarrow>
        let n = int (length cs); j = (if i < 0 then n + i else i) in
        if 0 \<le> j \<and> j < n
        then refresh (cs[nat j := (cs ! nat j)\<lparr>name := newname\<rparr>], outs) (nat j)
        else Inl (IndexError, cs, outs))"

text \<open>
  The events the registry subscribes to (\<open>__post_init__\<close>), and the processing of a
  sequence of them in order; an exception ends the processing, as it ends the handler.
\<close>

datatype event =
    Client_join int string
  | Client_progress int progress
  | Client_done int
  | Client_leave int
  | Client_rename int string

fun handle :: "event \<Rightarrow> registry \<Rightarrow> result" where
  "handle (Client_join i prefix) r = on_client_join (i, prefix) r"
| "handle (Client_progress i p) r = on_client_progress (i, p) r"
| "handle (Client_done i) r = on_client_done i r"
| "handle (Client_leave i) r = on_client_leave i r"
| "handle (Client_rename i n) r = on_rename (i, n) r"

fun process :: "event list \<Rightarrow> registry \<Rightarrow> result" where
  "process [] r = Inr r"
| "process (e # es) r = (case handle e r of Inl x \<Rightarrow> Inl x | Inr r' \<Rightarrow> process es r')"

text \<open>
  The position that a join uses: that of the first record with \<open>idx == -1\<close>, or the
  end of the list.
\<close>

definition join_slot :: "client list \<Rightarrow> nat" where
  "join_slot cs = (case get_client cs (- 1) of Some k \<Rightarrow> k | None \<Rightarrow> length cs)"

text \<open>
  Every record sits at the position it was created with: what \<open>listidx\<close> is for.
\<close>

definition slots_ok :: "client list \<Rightarrow> bool" where
  "slots_ok cs = (map listidx cs = [0..<length cs])"

text \<open>A registry with one recording worker, for the examples below.\<close>

definition c3 :: client where
  "c3 = \<lparr>idx = 3, status = 0, name = ''handler/3'', progress = PInt 0, listidx = 0\<rparr>"

section \<open>The line protocol of a session (\<open>ClientHandlerService.new_client\<close> of \<open>server.py\<close>)\<close>

subsection \<open>Python's \<open>str.split()\<close>, \<open>int(str)\<close> and \<open>float(str)\<close>\<close>

text \<open>
  A line is modelled after \<open>line.decode()\<close>, as the text it decodes to, each \<open>char\<close>
  standing for a code point below 256; the UTF-8 decoding itself (and the
  \<open>UnicodeDecodeError\<close> of an ill-formed line) is not part of the model.

  \<open>isspace\<close>: the code points below 256 that \<open>str.split()\<close> treats as white space:
  tab, line feed, vertical tab, form feed, carriage return, the separators
  \<open>0x1c\<close> to \<open>0x1f\<close>, space, \<open>0x85\<close> and \<open>0xa0\<close>.
\<close>

definition isspace :: "char \<Rightarrow> bool" where
  "isspace c =
     (let n = (of_char c :: nat)
      in (9 \<le> n \<and> n \<le> 13) \<or> (28 \<le> n \<and> n \<le> 32) \<or> n = 133 \<or> n = 160)"

text \<open>
  \<open>str.split()\<close> without arguments: the maximal runs of characters that are not white
  space, in order; no empty strings. \<open>split_from cur s\<close> has read the token \<open>cur\<close> so
  far.
\<close>

fun split_from :: "string \<Rightarrow> string \<Rightarrow> string list" where
  "split_from cur [] = (if cur = [] then [] else [cur])"
| "split_from cur (c # cs) =
     (if isspace c then (if cur = [] then split_from [] cs else cur # split_from [] cs)
      else split_from (cur @ [c]) cs)"

definition split :: "string \<Rightarrow> string list" where
  "split s = split_from [] s"

definition isdigit :: "char \<Rightarrow> bool" where
  "isdigit c = (let n = (of_char c :: nat) in 48 \<le> n \<and> n \<le> 57)"

definition digit_value :: "char \<Rightarrow> nat" where
  "digit_value c = of_char c - 48"

text \<open>The value of a string of decimal digits.\<close>

definition decimal :: "string \<Rightarrow> nat" where
  "decimal ds = foldl (\<lambda>n c. 10 * n + digit_value c) 0 ds"

text \<open>
  Underscores in a numeric literal: each must stand between two digits. The function
  returns the literal without them, or \<open>None\<close> for a misplaced one. \<open>prev\<close> is the
  character before (NUL at the start).
\<close>

fun strip_underscores :: "char \<Rightarrow> string \<Rightarrow> string option" where
  "strip_underscores prev [] = (if prev = CHR ''_'' then None else Some [])"
| "strip_underscores prev (c # cs) =
     (if c = CHR ''_''
      then (if isdigit prev then strip_underscores c cs else None)
      else if prev = CHR ''_'' \<and> \<not> isdigit c then None
      else map_option ((#) c) (strip_underscores c cs))"

text \<open>An optional sign in front of a literal: \<open>True\<close> for a minus.\<close>

fun take_sign :: "string \<Rightarrow> bool \<times> string" where
  "take_sign [] = (False, [])"
| "take_sign (c # cs) =
     (if c = CHR ''-'' then (True, cs) else if c = CHR ''+'' then (False, cs)
      else (False, c # cs))"

text \<open>
  \<open>int(s)\<close> for a string without white space, in base 10: an optional sign and at
  least one digit, underscores between digits allowed. Anything else raises
  \<open>ValueError\<close>, and so does a literal of more than 4300 digits (the default of
  \<open>sys.int_max_str_digits\<close>).
\<close>

definition py_int :: "string \<Rightarrow> error + int" where
  "py_int s =
     (case take_sign s of (neg, body) \<Rightarrow>
        (case strip_underscores (CHR 0x00) body of
           None \<Rightarrow> Inl ValueError
         | Some ds \<Rightarrow>
             if ds = [] \<or> \<not> list_all isdigit ds \<or> 4300 < length ds then Inl ValueError
             else Inr (if neg then - int (decimal ds) else int (decimal ds))))"

text \<open>
  The magnitude from which a number no longer rounds to a finite double: the midpoint
  between the largest double and \<open>2^1024\<close>.
\<close>

definition double_overflow :: rat where
  "double_overflow = 2 ^ 1024 - 2 ^ 970"

text \<open>
  The true division \<open>x / y\<close> of two Python integers: \<open>ZeroDivisionError\<close> for a zero
  divisor, \<open>OverflowError\<close> when the quotient is too large for a float.
\<close>

definition truediv :: "int \<Rightarrow> int \<Rightarrow> error + pyfloat" where
  "truediv x y =
     (if y = 0 then Inl ZeroDivisionError
      else if double_overflow \<le> \<bar>of_int x / of_int y\<bar> then Inl OverflowError
      else Inr (Finite (of_int x / of_int y)))"

text \<open>The float nearest to a rational, as far as the model goes: out of range is infinite.\<close>

definition to_float :: "rat \<Rightarrow> pyfloat" where
  "to_float r =
     (if double_overflow \<le> r then PosInf else if r \<le> - double_overflow then NegInf
      else Finite r)"

text \<open>\<open>f / 100\<close> for a float \<open>f\<close>.\<close>

fun div100 :: "pyfloat \<Rightarrow> pyfloat" where
  "div100 (Finite r) = Finite (r / 100)"
| "div100 f = f"

definition lower :: "char \<Rightarrow> char" where
  "lower c = (let n = (of_char c :: nat) in if 65 \<le> n \<and> n \<le> 90 then char_of (n + 32) else c)"

text \<open>
  The exponent of a float literal, after the \<open>e\<close>: an optional sign and at least one
  digit.
\<close>

definition exponent :: "string \<Rightarrow> int option" where
  "exponent s =
     (case take_sign s of (neg, ds) \<Rightarrow>
        if ds = [] \<or> \<not> list_all isdigit ds then None
        else Some (if neg then - int (decimal ds) else int (decimal ds)))"

definition scale10 :: "rat \<Rightarrow> int \<Rightarrow> rat" where
  "scale10 r e = (if 0 \<le> e then r * 10 ^ nat e else r / 10 ^ nat (- e))"

text \<open>
  A decimal literal without sign: digits, an optional point and digits (at least one
  digit on either side of it), an optional exponent.
\<close>

definition decimal_literal :: "string \<Rightarrow> rat option" where
  "decimal_literal s =
     (let ip = takeWhile isdigit s; r1 = dropWhile isdigit s;
          has_point = (r1 \<noteq> [] \<and> hd r1 = CHR ''.'');
          fp = (if has_point then takeWhile isdigit (tl r1) else []);
          r2 = (if has_point then dropWhile isdigit (tl r1) else r1);
          m = of_nat (decimal (ip @ fp)) / 10 ^ length fp
      in if ip = [] \<and> fp = [] then None
         else if r2 = [] then Some m
         else if hd r2 = CHR ''e'' \<or> hd r2 = CHR ''E''
         then map_option (scale10 m) (exponent (tl r2))
         else None)"

text \<open>
  \<open>float(s)\<close> for a string without white space: \<open>None\<close> is \<open>ValueError\<close>. The words
  \<open>inf\<close>, \<open>infinity\<close> and \<open>nan\<close> are accepted in any case and with a sign.
\<close>

definition py_float :: "string \<Rightarrow> pyfloat option" where
  "py_float s =
     (case strip_underscores (CHR 0x00) s of
        None \<Rightarrow> None
      | Some s' \<Rightarrow>
          (case take_sign s' of (neg, body) \<Rightarrow>
             let w = map lower body in
             if w = ''inf'' \<or> w = ''infinity'' then Some (if neg then NegInf else PosInf)
             else if w = ''nan'' then Some NaN
             else map_option (\<lambda>r. to_float (if neg then - r else r)) (decimal_literal body)))"

text \<open>\<open>str(i)\<close> for an integer, as the f-strings that build topic names use it.\<close>

fun str_nat :: "nat \<Rightarrow> string" where
  "str_nat n = (if n < 10 then [char_of (48 + n)] else str_nat (n div 10) @ [char_of (48 + n mod 10)])"

declare str_nat.simps [simp del]

definition str :: "int \<Rightarrow> string" where
  "str i = (if i < 0 then CHR ''-'' # str_nat (nat (- i)) else str_nat (nat i))"

subsection \<open>The session handler\<close>

text \<open>
  The text of the log lines of the session handler, as format and fields:
  \<^verbatim>\<open>f'progress {idx} {progress}'\<close>, \<^verbatim>\<open>f'alert {idx} {args[1]}'\<close>, \<^verbatim>\<open>f'done {idx}'\<close>,
  \<^verbatim>\<open>f'keepalive {idx}'\<close> and \<^verbatim>\<open>f'client-join {idx} {prefix}'\<close>.
\<close>

datatype session_log =
    Log_progress int progress
  | Log_alert int string
  | Log_done int
  | Log_keepalive int
  | Log_client_join int string

text \<open>
  The objects that the session handler publishes: a log entry \<open>(level, text)\<close>, a
  progress value, a pair \<open>(idx, progress)\<close>, an alert text, a pair \<open>(idx, text)\<close>, a
  session id, \<open>None\<close>, a received line, a pair \<open>(idx, prefix)\<close>.
\<close>

datatype payload =
    Log_entry int session_log
  | Progress_value progress
  | Id_progress int progress
  | Alert_text string
  | Id_alert int string
  | Session_id int
  | No_value
  | Line string
  | Id_prefix int string

type_synonym publication = "string \<times> payload"

text \<open>\<^verbatim>\<open>prefix = f'{self.name}/{idx}'\<close>, where the service's name is \<open>handler\<close>.\<close>

definition prefix :: "int \<Rightarrow> string" where
  "prefix i = ''handler/'' @ str i"

text \<open>
  The value of \<open>progress\<close> in the branch \<open>args[0] == 'progress'\<close>. With three tokens it
  is \<open>int(args[1]) / int(args[2])\<close>, outside any \<open>try\<close>. Otherwise it is
  \<open>float(args[1]) / 100\<close>, and on any exception \<open>args[1]\<close>; with one token alone,
  \<open>args[1]\<close> raises \<open>IndexError\<close> in the \<open>try\<close> and again in the \<open>except\<close>.
\<close>

definition progress_of :: "string list \<Rightarrow> error + progress" where
  "progress_of args =
     (if length args = 3
      then (case py_int (args ! 1) of
              Inl e \<Rightarrow> Inl e
            | Inr x \<Rightarrow>
                (case py_int (args ! 2) of
                   Inl e \<Rightarrow> Inl e
                 | Inr y \<Rightarrow> map_sum id PFloat (truediv x y)))
      else (case tl args of
              [] \<Rightarrow> Inl IndexError
            | a # _ \<Rightarrow>
                (case py_float a of
                   Some f \<Rightarrow> Inr (PFloat (div100 f))
                 | None \<Rightarrow> Inr (PStr a))))"

text \<open>
  \<open>client_update\<close>, the handler of the session's \<open>recv\<close> topic: the publications it
  makes for a line, in order, or the exception it raises (always before the first
  publication of the line).
\<close>

definition client_update :: "int \<Rightarrow> string \<Rightarrow> error + publication list" where
  "client_update i line =
     (let args = split line in
      case args of
        [] \<Rightarrow> Inl IndexError
      | a0 # rest \<Rightarrow>
          if a0 = ''progress'' then
            (case progress_of args of
               Inl e \<Rightarrow> Inl e
             | Inr p \<Rightarrow>
                 Inr [(''log'', Log_entry 0 (Log_progress i p)),
                      (prefix i @ ''/progress'', Progress_value p),
                      (''client-progress'', Id_progress i p)])
          else if a0 = ''alert'' then
            (case rest of
               [] \<Rightarrow> Inl IndexError
             | a1 # _ \<Rightarrow>
                 Inr [(''log'', Log_entry 0 (Log_alert i a1)),
                      (prefix i @ ''/alert'', Alert_text a1),
                      (''client-alert'', Id_alert i a1)])
          else if a0 = ''done'' then
            Inr [(''log'', Log_entry 0 (Log_done i)), (''client-done'', Session_id i)]
          else if a0 = ''keepalive'' then
            Inr [(''log'', Log_entry 0 (Log_keepalive i)),
                 (prefix i @ ''/keepalive'', No_value)]
          else Inr [])"

text \<open>
  The consumer loop of the \<open>recv\<close> subscription over the lines queued for it: it calls
  \<open>client_update\<close> for one line after the other, and an exception of the handler ends
  the loop (the lines after are never handled).
\<close>

fun recv_listener :: "int \<Rightarrow> string list \<Rightarrow> publication list" where
  "recv_listener i [] = []"
| "recv_listener i (l # ls) =
     (case client_update i l of Inl e \<Rightarrow> [] | Inr ps \<Rightarrow> ps @ recv_listener i ls)"

text \<open>
  What \<open>reader.readuntil(b'\n')\<close> gives: a line, \<open>IncompleteReadError\<close> at the end of
  the stream, or another exception (\<open>LimitOverrunError\<close>, a connection error).
\<close>

datatype read = Got string | IncompleteRead | Failed

text \<open>
  \<open>_reader\<close>: every line is published on the \<open>recv\<close> topic; \<open>IncompleteReadError\<close>
  publishes \<open>client-leave\<close> and ends the loop; any other exception ends it with no
  publication. With no more input the coroutine stays suspended.
\<close>

fun reader :: "int \<Rightarrow> read list \<Rightarrow> publication list" where
  "reader i [] = []"
| "reader i (Got l # rs) = (prefix i @ ''/recv'', Line l) # reader i rs"
| "reader i (IncompleteRead # rs) = [(''client-leave'', Session_id i)]"
| "reader i (Failed # rs) = []"

text \<open>
  The closures that \<open>new_client\<close> defines. \<open>Ka\<close> is \<open>_ka\<close>, which exists only inside
  \<open>keepalive\<close>; \<open>keepalive\<close> itself is never called.
\<close>

datatype closure = Client_update | Writer | Reader | Ka

text \<open>
  What \<open>new_client\<close> does for the session \<open>i\<close>, call by call. (The definition of
  \<open>keepalive\<close> between \<open>_reader\<close> and the first \<open>sub\<close> is a \<open>def\<close> statement: it
  makes no call.)
\<close>

datatype session_call =
    Pub string payload
  | Create_topic string
  | Sub string closure
  | Run_as_task closure

definition new_client :: "int \<Rightarrow> session_call list" where
  "new_client i =
     [Pub ''client-join'' (Id_prefix i (prefix i)),
      Pub ''log'' (Log_entry 0 (Log_client_join i (prefix i))),
      Create_topic (prefix i @ ''/progress''),
      Create_topic (prefix i @ ''/alert''),
      Create_topic (prefix i @ ''/recv''),
      Create_topic (prefix i @ ''/send''),
      Create_topic (prefix i @ ''/keepalive''),
      Sub (prefix i @ ''/recv'') Client_update,
      Sub (prefix i @ ''/send'') Writer,
      Run_as_task Reader]"

text \<open>
  \<open>_ka\<close>, had it been subscribed: \<open>last_time\<close> is its \<open>nonlocal\<close> variable, \<open>t1\<close> and
  \<open>t2\<close> are the two readings of \<open>time()\<close>. It returns the new \<open>last_time\<close> and what it
  publishes.
\<close>

definition ka :: "int \<Rightarrow> rat \<Rightarrow> rat \<Rightarrow> rat \<Rightarrow> rat \<times> publication list" where
  "ka i last_time t1 t2 =
     (let last = (if last_time = 0 then t1 else last_time)
      in (last, if t2 - last > 10 then [(''client-leave'', Session_id i)] else []))"

section \<open>The event bus (\<open>Service\<close>, \<open>TaskAwaiter\<close> and \<open>ServiceManager\<close> of \<open>common.py\<close>)\<close>

subsection \<open>State\<close>

text \<open>
  A published object: the sentinel \<open>QUIT\<close> (the one instance of \<open>QuitEv\<close>, compared by
  identity) or any other value.
\<close>

datatype 'a ev = QUIT | Val 'a

text \<open>
  The state of the coroutine \<open>_topic_listener\<close> of a subscription: \<open>Running\<close> (in the
  ready queue of the loop, or suspended in \<open>queue.get()\<close>), \<open>Stopped\<close> (it has left
  the loop at \<open>QUIT\<close>), \<open>Crashed\<close> (the handler raised).
\<close>

datatype cstate = Running | Stopped | Crashed

text \<open>
  A subscription of a service to a topic: the content of its \<open>Queue\<close>, the handler
  \<open>func\<close> given to \<open>sub\<close>, and the state of its consumer task. A handler is modelled
  by the publications \<open>self.pub(topic, obj)\<close> it makes, in order, for the object it is
  called with; it does not suspend (no handler of the repository awaits anything).
\<close>

record 'a subscription =
  queue :: "'a ev list"
  func :: "'a ev \<Rightarrow> (string \<times> 'a ev) list"
  consumer :: cstate

text \<open>
  What the event loop has in its ready queue:
  \<^item> \<open>OnPub tid s t e\<close>: the task number \<open>tid\<close> that \<open>pub\<close> created for the coroutine
    \<open>on_pub(t, e)\<close> of the service \<open>s\<close>;
  \<^item> \<open>Listener s t\<close>: the consumer task of the subscription of \<open>s\<close> to \<open>t\<close>;
  \<^item> \<open>Await_start i\<close>: the task \<open>_await_tasks\<close> of the awaiter \<open>i\<close>, not yet started;
  \<^item> \<open>On_completion i\<close>: the callback that \<open>asyncio.wait\<close> has put on a task of the
    awaiter \<open>i\<close>, scheduled because that task is done;
  \<^item> \<open>Await_resume i\<close>: the task \<open>_await_tasks\<close> again, woken by the last of these
    callbacks;
  \<^item> \<open>Drain\<close>: the coroutine \<open>wait\<close> of the manager, woken by the event it was
    suspended on.
\<close>

datatype 'a task =
    OnPub nat string string "'a ev"
  | Listener string string
  | Await_start nat
  | On_completion nat
  | Await_resume nat
  | Drain

text \<open>
  Where the coroutine \<open>wait\<close> of the manager is: not called yet; suspended in
  \<open>self._quit.wait()\<close>; suspended in \<open>awaiter.done()\<close> of the awaiter \<open>i\<close>; woken and
  in the ready queue; returned; or going round its \<open>while\<close> without ever suspending,
  which it would do if the first awaiter of \<open>_task_awaiters\<close> had its event set
  already.
\<close>

datatype drain = Not_called | Quit_wait | Done_wait nat | Woken | Returned | Spinning

text \<open>
  The two statements that end \<open>_await_tasks\<close>, as they are executed: the entry of the
  awaiter \<open>i\<close> is deleted from \<open>_task_awaiters\<close>; \<open>set()\<close> is called on its event.
\<close>

datatype mark = Deleted nat | Signalled nat

text \<open>
  Python iterates over a set of strings in an order that follows the hashes of the
  strings, which differ from one run of the interpreter to the next. \<open>iteration n xs\<close>
  is a rearrangement of \<open>xs\<close>, the one with the number \<open>n\<close>: every element is put in
  at a place that \<open>n\<close> chooses among those already placed.
\<close>

fun iteration :: "nat \<Rightarrow> 'a list \<Rightarrow> 'a list" where
  "iteration n [] = []"
| "iteration n (x # xs) =
     (let ys = iteration (n div Suc (length xs)) xs; k = n mod Suc (length xs)
      in take k ys @ x # drop k ys)"

text \<open>
  The manager with its services and the loop:
  \<^item> \<open>services\<close>: the keys of \<open>_services\<close>;
  \<^item> \<open>topics\<close>: \<open>_topics\<close>, each set of subscriber names as the list of its
    elements in the order in which they were added;
  \<^item> \<open>hash_order\<close>: for the names of a set in the order in which they were added,
    the number of the rearrangement in which the interpreter iterates over the set
    (any function: the properties below hold for all of them);
  \<^item> \<open>subs\<close>: \<open>_subs\<close> of every service, keyed by service name and topic;
  \<^item> \<open>ready\<close>: the ready queue of the loop, first in first out;
  \<^item> \<open>finished\<close>: the numbers of the tasks that are done; \<open>next_task\<close>: the next
    task number; \<open>external\<close>: the tasks started by \<open>run_as_task\<close> that are not done;
    \<open>callbacks\<close>: for every task, the awaiters whose \<open>asyncio.wait\<close> has put its
    callback on the task, in order;
  \<^item> \<open>task_awaiters\<close>: \<open>_task_awaiters\<close>, each awaiter with the tasks it waits for;
    \<open>awaiter_counter\<close>: \<open>_awaiter_counter\<close>; \<open>wait_counter\<close>: for every awaiter
    the variable \<open>counter\<close> of its \<open>asyncio.wait\<close>, the tasks whose callback has not
    run; \<open>parked\<close>: the awaiters suspended in \<open>asyncio.wait\<close> and not woken;
    \<open>done_events\<close>: the awaiters whose \<open>_done\<close> event is set;
  \<^item> \<open>quit_event\<close>: the event \<open>_quit\<close> is set; \<open>drain_state\<close>: where the coroutine
    \<open>wait\<close> is;
  \<^item> \<open>history\<close>: the deletions from \<open>_task_awaiters\<close> and the calls of \<open>set()\<close> on
    the events of the awaiters, in the order in which they were executed (not in the
    source: it is what the properties below speak about);
  \<^item> \<open>trace\<close>: the handler calls made so far, \<open>((s, t), e)\<close> for the handler of the
    subscription of \<open>s\<close> to \<open>t\<close> called with \<open>e\<close> (not in the source: it is what the
    properties below speak about).
\<close>

record 'a bus =
  services :: "string set"
  topics :: "string \<rightharpoonup> string list"
  hash_order :: "string list \<Rightarrow> nat"
  subs :: "string \<times> string \<rightharpoonup> 'a subscription"
  ready :: "'a task list"
  finished :: "nat set"
  next_task :: nat
  external :: "nat set"
  callbacks :: "nat \<Rightarrow> nat list"
  task_awaiters :: "nat \<rightharpoonup> nat list"
  awaiter_counter :: nat
  wait_counter :: "nat \<Rightarrow> int"
  parked :: "nat set"
  done_events :: "nat set"
  quit_event :: bool
  drain_state :: drain
  history :: "mark list"
  trace :: "((string \<times> string) \<times> 'a ev) list"

type_synonym 'a outcome = "error \<times> 'a bus + 'a bus"

subsection \<open>The manager's and the services' methods\<close>

text \<open>\<open>create_topic\<close>: the assertion, then an empty set of subscribers.\<close>

definition create_topic :: "string \<Rightarrow> 'a bus \<Rightarrow> 'a outcome" where
  "create_topic t b =
     (if topics b t \<noteq> None then Inl (AssertionError, b)
      else Inr (b\<lparr>topics := (topics b)(t \<mapsto> [])\<rparr>))"

text \<open>
  \<open>ServiceManager.__init__\<close>, in an interpreter whose sets iterate as \<open>h\<close> says:
  everything empty, and the topic \<open>log\<close>.
\<close>

definition init :: "(string list \<Rightarrow> nat) \<Rightarrow> 'a bus" where
  "init h =
     \<lparr>services = {}, topics = [''log'' \<mapsto> []], hash_order = h, subs = Map.empty,
      ready = [], finished = {}, next_task = 0, external = {}, callbacks = (\<lambda>tid. []),
      task_awaiters = Map.empty, awaiter_counter = 0, wait_counter = (\<lambda>i. 0),
      parked = {}, done_events = {}, quit_event = False, drain_state = Not_called,
      history = [], trace = []\<rparr>"

text \<open>
  \<open>register\<close>, without the \<open>__post_init__\<close> of the service: the name is entered in
  \<open>_services\<close>, then its topic is created. (For a name registered before, the source
  replaces the service object by the new one before \<open>create_topic\<close> fails; the model,
  which knows a service by its name, keeps the subscriptions of the old one.)
\<close>

definition register :: "string \<Rightarrow> 'a bus \<Rightarrow> 'a outcome" where
  "register s b = create_topic s (b\<lparr>services := insert s (services b)\<rparr>)"

text \<open>
  \<open>TaskAwaiter(tasks, manager)\<close>: the awaiter's own task is created first, then the
  awaiter is entered under the current counter, and the counter goes up.
\<close>

definition run_tasks :: "nat list \<Rightarrow> 'a bus \<Rightarrow> 'a bus" where
  "run_tasks tids b =
     b\<lparr>ready := ready b @ [Await_start (awaiter_counter b)],
       task_awaiters := (task_awaiters b)(awaiter_counter b \<mapsto> tids),
       awaiter_counter := Suc (awaiter_counter b)\<rparr>"

text \<open>
  The loop of \<open>pub\<close> over the subscribers: a task for each, in the order in which
  the set iterates. \<open>_services[sub]\<close>
  raises \<open>KeyError\<close> for a name that is no service; the tasks created before stay.
  The function returns the numbers of the tasks with the state.
\<close>

fun spawn :: "string \<Rightarrow> 'a ev \<Rightarrow> string list \<Rightarrow> nat list \<Rightarrow> 'a bus \<Rightarrow> error \<times> 'a bus + nat list \<times> 'a bus" where
  "spawn t e [] tids b = Inr (tids, b)"
| "spawn t e (s # ss) tids b =
     (if s \<in> services b
      then spawn t e ss (tids @ [next_task b])
             (b\<lparr>ready := ready b @ [OnPub (next_task b) s t e], next_task := Suc (next_task b)\<rparr>)
      else Inl (KeyError, b))"

text \<open>\<open>pub\<close>: the assertion of \<open>_get_topic\<close>, the tasks, and the awaiter for them.\<close>

definition pub :: "string \<Rightarrow> 'a ev \<Rightarrow> 'a bus \<Rightarrow> 'a outcome" where
  "pub t e b =
     (case topics b t of
        None \<Rightarrow> Inl (AssertionError, b)
      | Some ss \<Rightarrow>
          (case spawn t e (iteration (hash_order b ss) ss) [] b of
             Inl x \<Rightarrow> Inl x
           | Inr (tids, b') \<Rightarrow> Inr (run_tasks tids b')))"

text \<open>\<open>close_topic\<close>: publish the sentinel, then delete the topic.\<close>

definition close_topic :: "string \<Rightarrow> 'a bus \<Rightarrow> 'a outcome" where
  "close_topic t b =
     (case pub t QUIT b of
        Inl x \<Rightarrow> Inl x
      | Inr b' \<Rightarrow> Inr (b'\<lparr>topics := (topics b')(t := None)\<rparr>))"

text \<open>
  \<open>Service.sub\<close> for the service \<open>s\<close>: the assertion on \<open>_subs\<close>; \<open>self._manager\<close>, an
  attribute that only \<open>register\<close> sets; the queue and the consumer task; then
  \<open>_register_sub\<close>, whose \<open>_get_topic\<close> asserts that the topic exists when queue and
  task are already there.
\<close>

definition sub :: "string \<Rightarrow> string \<Rightarrow> ('a ev \<Rightarrow> (string \<times> 'a ev) list) \<Rightarrow> 'a bus \<Rightarrow> 'a outcome" where
  "sub s t f b =
     (if subs b (s, t) \<noteq> None then Inl (AssertionError, b)
      else if s \<notin> services b then Inl (AttributeError, b)
      else
        let b1 = b\<lparr>subs := (subs b)((s, t) \<mapsto> \<lparr>queue = [], func = f, consumer = Running\<rparr>),
                   ready := ready b @ [Listener s t]\<rparr>
        in (case topics b1 t of
              None \<Rightarrow> Inl (AssertionError, b1)
            | Some ss \<Rightarrow>
                Inr (b1\<lparr>topics := (topics b1)(t \<mapsto> (if s \<in> set ss then ss else ss @ [s]))\<rparr>)))"

text \<open>
  \<open>run_as_task(coro)\<close>: a task for a coroutine that the model does not run (in the
  repository: \<open>_reader\<close>, which waits for the network), and an awaiter for it.
\<close>

definition run_as_task :: "'a bus \<Rightarrow> 'a bus" where
  "run_as_task b =
     run_tasks [next_task b]
       (b\<lparr>external := insert (next_task b) (external b), next_task := Suc (next_task b)\<rparr>)"

text \<open>Several publications one after the other, as a handler makes them.\<close>

fun pubs :: "(string \<times> 'a ev) list \<Rightarrow> 'a bus \<Rightarrow> 'a outcome" where
  "pubs [] b = Inr b"
| "pubs ((t, e) # ps) b = (case pub t e b of Inl x \<Rightarrow> Inl x | Inr b' \<Rightarrow> pubs ps b')"

subsection \<open>The tasks\<close>

text \<open>
  A task is done: the loop schedules the callbacks that are on it, in the order in
  which they were put there.
\<close>

definition finish :: "nat \<Rightarrow> 'a bus \<Rightarrow> 'a bus" where
  "finish tid b =
     b\<lparr>finished := insert tid (finished b), external := external b - {tid},
       ready := ready b @ map On_completion (callbacks b tid),
       callbacks := (callbacks b)(tid := [])\<rparr>"

text \<open>
  \<open>on_pub\<close>: the assertion that the service has the subscription, then \<open>put\<close> on the
  queue, which is unbounded and so never waits. \<open>put\<close> wakes the consumer when it is
  suspended in \<open>get\<close>, that is when it is running and not in the ready queue already.
\<close>

definition on_pub :: "string \<Rightarrow> string \<Rightarrow> 'a ev \<Rightarrow> 'a bus \<Rightarrow> 'a bus" where
  "on_pub s t e b =
     (case subs b (s, t) of
        None \<Rightarrow> b
      | Some sb \<Rightarrow>
          b\<lparr>subs := (subs b)((s, t) \<mapsto> sb\<lparr>queue := queue sb @ [e]\<rparr>),
            ready := (if consumer sb = Running \<and> Listener s t \<notin> set (ready b)
                      then ready b @ [Listener s t] else ready b)\<rparr>)"

text \<open>
  The loop of \<open>_topic_listener\<close> over the content \<open>q\<close> of its queue: at \<open>QUIT\<close> it
  breaks; otherwise it calls the handler, whose publications go through \<open>pub\<close>, and an
  exception of \<open>pub\<close> ends the task. With the queue empty the task is suspended in
  \<open>get\<close>. The result is what is left in the queue, the state of the task, and the bus.
\<close>

fun topic_listener ::
  "string \<times> string \<Rightarrow> ('a ev \<Rightarrow> (string \<times> 'a ev) list) \<Rightarrow> 'a ev list \<Rightarrow> 'a bus \<Rightarrow>
   'a ev list \<times> cstate \<times> 'a bus" where
  "topic_listener k f [] b = ([], Running, b)"
| "topic_listener k f (e # q) b =
     (if e = QUIT then (q, Stopped, b)
      else (case pubs (f e) (b\<lparr>trace := trace b @ [(k, e)]\<rparr>) of
              Inl (x, b') \<Rightarrow> (q, Crashed, b')
            | Inr b' \<Rightarrow> topic_listener k f q b'))"

text \<open>
  The end of \<open>_await_tasks\<close>: first \<open>del self._manager._task_awaiters[self._idx]\<close>, then
  \<open>self._done.set()\<close>, with no suspension between the two. \<open>set()\<close> wakes the
  coroutine that is suspended on the event, here \<open>wait\<close>: its wake-up goes to the end
  of the ready queue. A missing key would raise \<open>KeyError\<close> and leave the event unset.
\<close>

definition del_awaiter :: "nat \<Rightarrow> 'a bus \<Rightarrow> 'a bus" where
  "del_awaiter i b =
     b\<lparr>task_awaiters := (task_awaiters b)(i := None), history := history b @ [Deleted i]\<rparr>"

definition set_done :: "nat \<Rightarrow> 'a bus \<Rightarrow> 'a bus" where
  "set_done i b =
     (let b1 = b\<lparr>done_events := insert i (done_events b), history := history b @ [Signalled i]\<rparr>
      in if drain_state b = Done_wait i
         then b1\<lparr>ready := ready b1 @ [Drain], drain_state := Woken\<rparr> else b1)"

definition await_tasks_end :: "nat \<Rightarrow> 'a bus \<Rightarrow> 'a bus" where
  "await_tasks_end i b =
     (case task_awaiters b i of None \<Rightarrow> b | Some tids \<Rightarrow> set_done i (del_awaiter i b))"

text \<open>
  The start of \<open>_await_tasks\<close> for an awaiter with tasks: \<open>asyncio.wait\<close> makes a set
  of the tasks, counts them, and puts its callback on each; for a task that is done
  already the loop schedules the callback at once. Then the awaiter is suspended.
\<close>

definition wait_tasks :: "nat \<Rightarrow> nat list \<Rightarrow> 'a bus \<Rightarrow> 'a bus" where
  "wait_tasks i tids b =
     b\<lparr>ready := ready b @ map (\<lambda>tid. On_completion i) (filter (\<lambda>tid. tid \<in> finished b) (remdups tids)),
       callbacks := (\<lambda>tid. if tid \<in> set tids \<and> tid \<notin> finished b
                           then callbacks b tid @ [i] else callbacks b tid),
       wait_counter := (wait_counter b)(i := int (length (remdups tids))),
       parked := insert i (parked b)\<rparr>"

text \<open>
  The callback of \<open>asyncio.wait\<close>: it counts down, and at zero it wakes the awaiter,
  unless that is woken already.
\<close>

definition on_completion :: "nat \<Rightarrow> 'a bus \<Rightarrow> 'a bus" where
  "on_completion i b =
     (let b1 = b\<lparr>wait_counter := (wait_counter b)(i := wait_counter b i - 1)\<rparr>
      in if wait_counter b1 i \<le> 0 \<and> i \<in> parked b1
         then b1\<lparr>ready := ready b1 @ [Await_resume i], parked := parked b1 - {i}\<rparr> else b1)"

text \<open>
  The first awaiter of \<open>_task_awaiters\<close>: a dictionary keeps the order of insertion,
  which is the order of the counter.
\<close>

definition first_awaiter :: "'a bus \<Rightarrow> nat option" where
  "first_awaiter b = List.find (\<lambda>i. task_awaiters b i \<noteq> None) [0..<awaiter_counter b]"

text \<open>
  The \<open>while\<close> of \<open>wait\<close> from its head to the next suspension: with \<open>_task_awaiters\<close>
  empty the coroutine returns; otherwise it takes the first awaiter and waits for its
  event. \<open>Event.wait()\<close> on an event that is set returns without suspending, and the
  \<open>while\<close> would start again in the same state, for ever.
\<close>

definition drain_loop :: "'a bus \<Rightarrow> 'a bus" where
  "drain_loop b =
     (case first_awaiter b of
        None \<Rightarrow> b\<lparr>drain_state := Returned\<rparr>
      | Some i \<Rightarrow>
          if i \<in> done_events b then b\<lparr>drain_state := Spinning\<rparr>
          else b\<lparr>drain_state := Done_wait i\<rparr>)"

text \<open>
  One turn of a task. \<open>_await_tasks\<close> with no task ends at once; with tasks it goes
  through \<open>asyncio.wait\<close>, also when all of them are done.
\<close>

fun exec :: "'a task \<Rightarrow> 'a bus \<Rightarrow> 'a bus" where
  "exec (OnPub tid s t e) b = finish tid (on_pub s t e b)"
| "exec (Listener s t) b =
     (case subs b (s, t) of
        None \<Rightarrow> b
      | Some sb \<Rightarrow>
          if consumer sb \<noteq> Running then b
          else (case topic_listener (s, t) (func sb) (queue sb) b of
                  (q, c, b') \<Rightarrow>
                    b'\<lparr>subs := (subs b')((s, t) \<mapsto> sb\<lparr>queue := q, consumer := c\<rparr>)\<rparr>))"
| "exec (Await_start i) b =
     (case task_awaiters b i of
        None \<Rightarrow> b
      | Some tids \<Rightarrow> if tids = [] then await_tasks_end i b else wait_tasks i tids b)"
| "exec (On_completion i) b = on_completion i b"
| "exec (Await_resume i) b = await_tasks_end i b"
| "exec Drain b = drain_loop b"

text \<open>One iteration of the event loop: the first task of the ready queue has its turn.\<close>

definition step :: "'a bus \<Rightarrow> 'a bus" where
  "step b = (case ready b of [] \<Rightarrow> b | x # xs \<Rightarrow> exec x (b\<lparr>ready := xs\<rparr>))"

fun steps :: "nat \<Rightarrow> 'a bus \<Rightarrow> 'a bus" where
  "steps 0 b = b"
| "steps (Suc n) b = steps n (step b)"

text \<open>
  \<open>self._quit.set()\<close> (no code of the repository calls it): the first call sets the
  event and wakes the coroutine \<open>wait\<close> if it is suspended on it.
\<close>

definition quit :: "'a bus \<Rightarrow> 'a bus" where
  "quit b =
     (if quit_event b then b
      else if drain_state b = Quit_wait
      then b\<lparr>quit_event := True, ready := ready b @ [Drain], drain_state := Woken\<rparr>
      else b\<lparr>quit_event := True\<rparr>)"

text \<open>
  The call of \<open>wait\<close>, up to its first suspension: \<open>await self._quit.wait()\<close> suspends
  unless the event is set, and then the \<open>while\<close> begins. (\<open>amain\<close> calls \<open>wait\<close> once;
  a second call is not modelled.)
\<close>

definition wait_start :: "'a bus \<Rightarrow> 'a bus" where
  "wait_start b =
     (if drain_state b \<noteq> Not_called then b
      else if quit_event b then drain_loop b
      else b\<lparr>drain_state := Quit_wait\<rparr>)"

text \<open>
  The loop runs until the coroutine \<open>wait\<close> has returned: the state in which it
  returns. With nothing left to run it never returns. The first argument bounds the
  number of iterations: \<open>None\<close> is "has not returned".
\<close>

fun run_loop :: "nat \<Rightarrow> 'a bus \<Rightarrow> 'a bus option" where
  "run_loop 0 b = None"
| "run_loop (Suc n) b =
     (if drain_state b = Returned then Some b
      else if ready b = [] then None
      else run_loop n (step b))"

text \<open>\<open>wait\<close>, called in the state \<open>b\<close>, with the loop running.\<close>

definition wait :: "nat \<Rightarrow> 'a bus \<Rightarrow> 'a bus option" where
  "wait n b = run_loop n (wait_start b)"

text \<open>An event from outside the loop: a task started by \<open>run_as_task\<close> is done.\<close>

definition external_done :: "nat \<Rightarrow> 'a bus \<Rightarrow> 'a bus" where
  "external_done tid b = (if tid \<in> external b then finish tid b else b)"

subsection \<open>What the properties speak about\<close>

text \<open>The objects that the handler of a subscription has been called with, in order.\<close>

definition handled :: "string \<times> string \<Rightarrow> 'a bus \<Rightarrow> 'a ev list" where
  "handled k b = map snd (filter (\<lambda>x. fst x = k) (trace b))"

text \<open>The objects on their way to a subscription in the ready queue, in order.\<close>

fun deliveries :: "string \<times> string \<Rightarrow> 'a task list \<Rightarrow> 'a ev list" where
  "deliveries k [] = []"
| "deliveries k (OnPub tid s t e # xs) =
     (if k = (s, t) then e # deliveries k xs else deliveries k xs)"
| "deliveries k (x # xs) = deliveries k xs"

text \<open>The state that a call leaves, whether it has raised or not.\<close>

definition after :: "'a outcome \<Rightarrow> 'a bus" where
  "after r = (case r of Inl (x, b) \<Rightarrow> b | Inr b \<Rightarrow> b)"

text \<open>
  The states that the manager can be in: from \<open>init\<close>, by calls of the methods (also
  those that raise), iterations of the loop, tasks ending outside, the setting of
  \<open>_quit\<close> and the call of \<open>wait\<close>.
\<close>

inductive reachable :: "'a bus \<Rightarrow> bool" where
  r_init: "reachable (init h)"
| r_create_topic: "reachable b \<Longrightarrow> reachable (after (create_topic t b))"
| r_register: "reachable b \<Longrightarrow> reachable (after (register s b))"
| r_pub: "reachable b \<Longrightarrow> reachable (after (pub t e b))"
| r_close_topic: "reachable b \<Longrightarrow> reachable (after (close_topic t b))"
| r_sub: "reachable b \<Longrightarrow> reachable (after (sub s t f b))"
| r_run_as_task: "reachable b \<Longrightarrow> reachable (run_as_task b)"
| r_step: "reachable b \<Longrightarrow> reachable (step b)"
| r_external_done: "reachable b \<Longrightarrow> reachable (external_done tid b)"
| r_quit: "reachable b \<Longrightarrow> reachable (quit b)"
| r_wait_start: "reachable b \<Longrightarrow> reachable (wait_start b)"

text \<open>
  In a history, every call of \<open>set()\<close> on the event of an awaiter comes after the
  deletion of that awaiter.
\<close>

definition deleted_first :: "mark list \<Rightarrow> bool" where
  "deleted_first h =
     (\<forall>n<length h. \<forall>i. h ! n = Signalled i \<longrightarrow> (\<exists>m<n. h ! m = Deleted i))"

text \<open>
  The invariant of the reachable states about the awaiters:
  \<^item> an awaiter whose event is set is no longer in \<open>_task_awaiters\<close>;
  \<^item> the awaiters ever created are those below the counter, and each is still in
    \<open>_task_awaiters\<close> or has its event set;
  \<^item> the events that are set are those on which \<open>set()\<close> has been called, and the
    awaiters deleted are below the counter and no longer in \<open>_task_awaiters\<close>;
  \<^item> the coroutine \<open>wait\<close> does not spin.
\<close>

definition awaiters_ok :: "'a bus \<Rightarrow> bool" where
  "awaiters_ok b =
     ((\<forall>i\<in>done_events b. task_awaiters b i = None \<and> i < awaiter_counter b) \<and>
      (\<forall>i. task_awaiters b i \<noteq> None \<longrightarrow> i < awaiter_counter b) \<and>
      (\<forall>i<awaiter_counter b. i \<in> done_events b \<or> task_awaiters b i \<noteq> None) \<and>
      (\<forall>i. (i \<in> done_events b) = (Signalled i \<in> set (history b))) \<and>
      (\<forall>i. Deleted i \<in> set (history b) \<longrightarrow> task_awaiters b i = None \<and> i < awaiter_counter b) \<and>
      drain_state b \<noteq> Spinning \<and>
      deleted_first (history b))"

text \<open>
  An example: the service \<open>a\<close> subscribes to the topic \<open>t\<close> with a handler that
  publishes what it gets on the topic \<open>u\<close>, the service \<open>c\<close> subscribes to \<open>u\<close> with
  a handler that publishes nothing, and the value 1 is published on \<open>t\<close>.
\<close>

definition demo :: "nat bus" where
  "demo =
     after (pub ''t'' (Val 1)
       (after (sub ''c'' ''u'' (\<lambda>e. [])
         (after (sub ''a'' ''t'' (\<lambda>e. [(''u'', e)])
           (after (create_topic ''u''
             (after (create_topic ''t''
               (after (register ''c''
                 (after (register ''a'' (init (\<lambda>ss. 0)))))))))))))))"

subsection \<open>Deliveries\<close>

text \<open>The list \<open>ys\<close> begins with the list \<open>xs\<close>.\<close>

definition begins :: "'a list \<Rightarrow> 'a list \<Rightarrow> bool" where
  "begins xs ys = (take (length xs) ys = xs)"





text \<open>
  The invariants of the reachable states.
  \<^item> \<open>ready_ok\<close>: a delivery in the ready queue goes to a subscription that exists;
  \<^item> \<open>queues_ok\<close>: a running consumer that is not in the ready queue has an empty
    queue (it is suspended in \<open>get\<close>);
  \<^item> \<open>topics_ok\<close>: the subscribers of a topic are services that have the
    subscription, each once;
  \<^item> \<open>trace_ok\<close>: the handlers have been called for subscriptions that exist, and
    never with \<open>QUIT\<close>.
\<close>

definition ready_ok :: "'a bus \<Rightarrow> bool" where
  "ready_ok b = (\<forall>tid s t e. OnPub tid s t e \<in> set (ready b) \<longrightarrow> subs b (s, t) \<noteq> None)"


definition topics_ok :: "'a bus \<Rightarrow> bool" where
  "topics_ok b =
     (\<forall>t ss. topics b t = Some ss \<longrightarrow>
        distinct ss \<and> (\<forall>s\<in>set ss. s \<in> services b \<and> subs b (s, t) \<noteq> None))"



text \<open>
  What publications do to the bus: they add deliveries and awaiters' tasks at the end
  of the ready queue, and leave the services, the topics, the subscriptions and the
  tasks that are there as they are.
\<close>

definition extends :: "'a bus \<Rightarrow> 'a bus \<Rightarrow> bool" where
  "extends b b' =
     (services b' = services b \<and> topics b' = topics b \<and> subs b' = subs b \<and>
      hash_order b' = hash_order b \<and>
      (\<exists>xs. ready b' = ready b @ xs \<and>
         (\<forall>x\<in>set xs. (\<exists>tid s t e. x = OnPub tid s t e) \<or> (\<exists>i. x = Await_start i))))"




section \<open>Properties of the worker registry\<close>

lemma get_client_SomeD:
  "get_client cs i = Some k \<Longrightarrow> k < length cs \<and> idx (cs ! k) = i"
  by (induction cs arbitrary: k) (auto split: if_splits)

lemma get_client_None: "(get_client cs i = None) = (\<forall>c\<in>set cs. idx c \<noteq> i)"
  by (induction cs) auto

lemma get_client_same_ids:
  "map idx cs' = map idx cs \<Longrightarrow> get_client cs' i = get_client cs i"
proof (induction cs arbitrary: cs')
  case Nil
  then show ?case by simp
next
  case (Cons a cs)
  then obtain b bs where cs': "cs' = b # bs" and b: "idx b = idx a" and bs: "map idx bs = map idx cs"
    by (cases cs') simp_all
  from Cons.IH [OF bs] show ?case by (simp add: cs' b)
qed

lemma map_update_same: "f c = f (cs ! k) \<Longrightarrow> map f (cs[k := c]) = map f cs"
proof (cases "k < length cs")
  case True
  assume "f c = f (cs ! k)"
  with True show ?thesis by (simp add: map_update list_update_same_conv)
next
  case False
  then show ?thesis by (simp add: list_update_beyond)
qed

lemma get_client_update_same:
  "idx c = idx (cs ! k) \<Longrightarrow> get_client (cs[k := c]) i = get_client cs i"
proof (rule get_client_same_ids)
  assume "idx c = idx (cs ! k)"
  then show "map idx (cs[k := c]) = map idx cs"
    by (rule map_update_same)
qed

lemma get_client_fresh_update:
  "\<forall>c\<in>set cs. idx c \<noteq> i \<Longrightarrow> k < length cs \<Longrightarrow> idx c' = i \<Longrightarrow>
   get_client (cs[k := c']) i = Some k"
proof (induction cs arbitrary: k)
  case Nil then show ?case by simp
next
  case (Cons a cs) then show ?case by (cases k) simp_all
qed

lemma get_client_fresh_append:
  "\<forall>c\<in>set cs. idx c \<noteq> i \<Longrightarrow> idx c' = i \<Longrightarrow> get_client (cs @ [c']) i = Some (length cs)"
  by (induction cs) simp_all

lemma slots_ok_nth: "slots_ok cs \<Longrightarrow> k < length cs \<Longrightarrow> listidx (cs ! k) = k"
  by (metis slots_ok_def nth_map nth_upt add_0)

lemma slots_ok_update: "slots_ok cs \<Longrightarrow> listidx c = listidx (cs ! k) \<Longrightarrow> slots_ok (cs[k := c])"
proof -
  assume ok: "slots_ok cs" and c: "listidx c = listidx (cs ! k)"
  have "map listidx (cs[k := c]) = map listidx cs"
    using c by (rule map_update_same)
  with ok show ?thesis by (simp add: slots_ok_def)
qed

lemma slots_ok_append: "slots_ok cs \<Longrightarrow> listidx c = length cs \<Longrightarrow> slots_ok (cs @ [c])"
  by (simp add: slots_ok_def)

lemma join_slot_le: "join_slot cs \<le> length cs"
  by (auto simp: join_slot_def dest: get_client_SomeD split: option.splits)

lemma refresh_ok: "k < length cs \<Longrightarrow> refresh (cs, outs) k = Inr (cs, outs @ [Refresh k])"
  by (simp add: refresh_def)

lemma progress_found:
  assumes "slots_ok cs" and "get_client cs i = Some k"
  shows "on_client_progress (i, p) (cs, outs) =
         Inr (cs[k := (cs ! k)\<lparr>progress := p\<rparr>], outs @ [Refresh k])"
proof -
  from assms(2) have k: "k < length cs" by (simp add: get_client_SomeD)
  with assms(1) have "listidx (cs ! k) = k" by (rule slots_ok_nth)
  with k assms(2) show ?thesis by (simp add: on_client_progress_def refresh_ok)
qed

lemma done_found:
  assumes "slots_ok cs" and "get_client cs i = Some k"
  shows "on_client_done i (cs, outs) =
         Inr (cs[k := (cs ! k)\<lparr>status := 1\<rparr>], outs @ [Refresh k])"
proof -
  from assms(2) have k: "k < length cs" by (simp add: get_client_SomeD)
  with assms(1) have "listidx (cs ! k) = k" by (rule slots_ok_nth)
  with k assms(2) show ?thesis by (simp add: on_client_done_def refresh_ok)
qed

lemma leave_found:
  assumes "slots_ok cs" and "get_client cs i = Some k"
  shows "on_client_leave i (cs, outs) =
         (if status (cs ! k) \<noteq> 1
          then Inr (cs[k := (cs ! k)\<lparr>idx := - 1, status := 2\<rparr>],
                    outs @ [Log 2 (Msg_left_not_done i (name (cs ! k))), Refresh k])
          else Inr (cs[k := (cs ! k)\<lparr>idx := - 1\<rparr>], outs @ [Refresh k]))"
proof -
  from assms(2) have k: "k < length cs" by (simp add: get_client_SomeD)
  with assms(1) have "listidx (cs ! k) = k" by (rule slots_ok_nth)
  with k assms(2) show ?thesis by (simp add: on_client_leave_def refresh_ok Let_def)
qed

lemma join_reuse:
  assumes "slots_ok cs" and "get_client cs (- 1) = Some k"
  shows "on_client_join (i, n) (cs, outs) =
         Inr (cs[k := (cs ! k)\<lparr>idx := i, status := 0, progress := PInt 0\<rparr>], outs @ [Refresh k])"
proof -
  from assms(2) have k: "k < length cs" by (simp add: get_client_SomeD)
  with assms(1) have "listidx (cs ! k) = k" by (rule slots_ok_nth)
  with k assms(2) show ?thesis by (simp add: on_client_join_def refresh_ok Let_def)
qed

lemma join_append:
  assumes "get_client cs (- 1) = None"
  shows "on_client_join (i, n) (cs, outs) =
         Inr (cs @ [\<lparr>idx = i, status = 0, name = n, progress = PInt 0, listidx = length cs\<rparr>],
              outs @ [Log 0 (Msg_client_join
                 \<lparr>idx = i, status = 0, name = n, progress = PInt 0, listidx = length cs\<rparr>),
                 Refresh (length cs)])"
  using assms by (simp add: on_client_join_def refresh_ok Let_def)

text \<open>The state after a join of a fresh id.\<close>

lemma join_fresh:
  assumes ok: "slots_ok cs" and fresh: "\<forall>c\<in>set cs. idx c \<noteq> i"
  shows "\<exists>cs1 outs1. on_client_join (i, n) (cs, outs) = Inr (cs1, outs1) \<and>
           slots_ok cs1 \<and> get_client cs1 i = Some (join_slot cs) \<and>
           status (cs1 ! join_slot cs) = 0 \<and> progress (cs1 ! join_slot cs) = PInt 0 \<and>
           length cs \<le> length cs1 \<and>
           (\<forall>j < length cs. j \<noteq> join_slot cs \<longrightarrow> cs1 ! j = cs ! j)"
proof (cases "get_client cs (- 1)")
  case None
  let ?c = "\<lparr>idx = i, status = 0, name = n, progress = PInt 0, listidx = length cs\<rparr>"
  have js: "join_slot cs = length cs" using None by (simp add: join_slot_def)
  have "slots_ok (cs @ [?c])" using ok by (rule slots_ok_append) simp
  moreover have "get_client (cs @ [?c]) i = Some (length cs)"
    using fresh by (rule get_client_fresh_append) simp
  ultimately show ?thesis
    using join_append [OF None, of i n outs] js by (simp add: nth_append)
next
  case (Some k)
  let ?c = "(cs ! k)\<lparr>idx := i, status := 0, progress := PInt 0\<rparr>"
  have js: "join_slot cs = k" using Some by (simp add: join_slot_def)
  from Some have k: "k < length cs" by (simp add: get_client_SomeD)
  have "slots_ok (cs[k := ?c])" using ok by (rule slots_ok_update) simp
  moreover have "get_client (cs[k := ?c]) i = Some k"
    using fresh k by (rule get_client_fresh_update) simp
  ultimately show ?thesis
    using join_reuse [OF ok Some, of i n outs] js k by simp
qed

text \<open>
  Claim C2. For a session id \<open>i\<close> that no record of the registry carries, processing
  client-join, client-progress, client-done, client-leave for \<open>i\<close> in this order
  leaves the record that the join used with \<open>status = Success\<close> and \<open>idx = -1\<close>;
  processing client-join, client-leave alone leaves it with \<open>status = Error\<close>
  (and \<open>idx = -1\<close>). No handler raises, and no other record changes.
\<close>

theorem worker_lifecycle:
  assumes ok: "slots_ok cs" and fresh: "\<forall>c\<in>set cs. idx c \<noteq> i"
  shows "(\<exists>cs' outs'.
            process [Client_join i n, Client_progress i p, Client_done i, Client_leave i]
              (cs, outs) = Inr (cs', outs') \<and>
            join_slot cs < length cs' \<and>
            status (cs' ! join_slot cs) = Success \<and> idx (cs' ! join_slot cs) = - 1 \<and>
            (\<forall>j < length cs. j \<noteq> join_slot cs \<longrightarrow> cs' ! j = cs ! j)) \<and>
         (\<exists>cs' outs'.
            process [Client_join i n, Client_leave i] (cs, outs) = Inr (cs', outs') \<and>
            join_slot cs < length cs' \<and>
            status (cs' ! join_slot cs) = Error \<and> idx (cs' ! join_slot cs) = - 1 \<and>
            (\<forall>j < length cs. j \<noteq> join_slot cs \<longrightarrow> cs' ! j = cs ! j))"
proof -
  let ?k = "join_slot cs"
  from join_fresh [OF ok fresh, of n outs] obtain cs1 outs1 where
    j: "on_client_join (i, n) (cs, outs) = Inr (cs1, outs1)" and
    ok1: "slots_ok cs1" and g1: "get_client cs1 i = Some ?k" and
    st1: "status (cs1 ! ?k) = 0" and
    same1: "\<forall>j < length cs. j \<noteq> ?k \<longrightarrow> cs1 ! j = cs ! j"
    by blast
  from g1 have k1: "?k < length cs1" by (simp add: get_client_SomeD)
  \<comment> \<open>join, leave\<close>
  have l: "on_client_leave i (cs1, outs1) =
      Inr (cs1[?k := (cs1 ! ?k)\<lparr>idx := - 1, status := 2\<rparr>],
           outs1 @ [Log 2 (Msg_left_not_done i (name (cs1 ! ?k))), Refresh ?k])"
    using leave_found [OF ok1 g1, of outs1] st1 by simp
  have second: "\<exists>cs' outs'.
      process [Client_join i n, Client_leave i] (cs, outs) = Inr (cs', outs') \<and>
      ?k < length cs' \<and> status (cs' ! ?k) = Error \<and> idx (cs' ! ?k) = - 1 \<and>
      (\<forall>j < length cs. j \<noteq> ?k \<longrightarrow> cs' ! j = cs ! j)"
    using j l k1 same1 by simp
  \<comment> \<open>join, progress, done, leave\<close>
  let ?cs2 = "cs1[?k := (cs1 ! ?k)\<lparr>progress := p\<rparr>]"
  have p: "on_client_progress (i, p) (cs1, outs1) = Inr (?cs2, outs1 @ [Refresh ?k])"
    using ok1 g1 by (rule progress_found)
  have ok2: "slots_ok ?cs2" using ok1 by (rule slots_ok_update) simp
  have "get_client ?cs2 i = get_client cs1 i" by (rule get_client_update_same) simp
  with g1 have g2: "get_client ?cs2 i = Some ?k" by simp
  let ?cs3 = "?cs2[?k := (?cs2 ! ?k)\<lparr>status := 1\<rparr>]"
  have d: "on_client_done i (?cs2, outs1 @ [Refresh ?k]) = Inr (?cs3, outs1 @ [Refresh ?k] @ [Refresh ?k])"
    using done_found [OF ok2 g2] by simp
  have ok3: "slots_ok ?cs3" using ok2 by (rule slots_ok_update) simp
  have "get_client ?cs3 i = get_client ?cs2 i" by (rule get_client_update_same) simp
  with g2 have g3: "get_client ?cs3 i = Some ?k" by simp
  have st3: "status (?cs3 ! ?k) = 1" using k1 by simp
  have l3: "on_client_leave i (?cs3, outs1 @ [Refresh ?k] @ [Refresh ?k]) =
      Inr (?cs3[?k := (?cs3 ! ?k)\<lparr>idx := - 1\<rparr>], (outs1 @ [Refresh ?k] @ [Refresh ?k]) @ [Refresh ?k])"
    using leave_found [OF ok3 g3] st3 by simp
  have first: "\<exists>cs' outs'.
      process [Client_join i n, Client_progress i p, Client_done i, Client_leave i]
        (cs, outs) = Inr (cs', outs') \<and>
      ?k < length cs' \<and> status (cs' ! ?k) = Success \<and> idx (cs' ! ?k) = - 1 \<and>
      (\<forall>j < length cs. j \<noteq> ?k \<longrightarrow> cs' ! j = cs ! j)"
    using j p d l3 k1 same1 by simp
  from first second show ?thesis by blast
qed

theorem worker_lifecycle_witness:
  "(\<exists>cs' outs'.
      process [Client_join 7 ''handler/7'', Client_progress 7 (PFloat (Finite (1 / 2))),
               Client_done 7, Client_leave 7] ([c3], []) = Inr (cs', outs') \<and>
      1 < length cs' \<and> status (cs' ! 1) = Success \<and> idx (cs' ! 1) = - 1 \<and> cs' ! 0 = c3) \<and>
   (\<exists>cs' outs'.
      process [Client_join 7 ''handler/7'', Client_leave 7] ([c3], []) = Inr (cs', outs') \<and>
      1 < length cs' \<and> status (cs' ! 1) = Error \<and> idx (cs' ! 1) = - 1 \<and> cs' ! 0 = c3)"
  using worker_lifecycle [of "[c3]" 7 "''handler/7''" "PFloat (Finite (1 / 2))" "[]"]
  by (simp add: slots_ok_def join_slot_def c3_def)

lemma get_client_first: "get_client cs i = Some k \<Longrightarrow> j < k \<Longrightarrow> idx (cs ! j) \<noteq> i"
proof (induction cs arbitrary: k j)
  case Nil
  then show ?case by simp
next
  case (Cons a cs)
  show ?case
  proof (cases "idx a = i")
    case True
    with Cons.prems show ?thesis by simp
  next
    case False
    with Cons.prems obtain k' where k': "get_client cs i = Some k'" and k: "k = Suc k'"
      by auto
    show ?thesis
    proof (cases j)
      case 0
      with False show ?thesis by simp
    next
      case (Suc j')
      with Cons.prems(2) k have "j' < k'" by simp
      with Cons.IH [OF k'] have "idx (cs ! j') \<noteq> i" by simp
      with Suc show ?thesis by simp
    qed
  qed
qed

lemma get_client_SomeI:
  "k < length cs \<Longrightarrow> idx (cs ! k) = i \<Longrightarrow> \<forall>j<k. idx (cs ! j) \<noteq> i \<Longrightarrow> get_client cs i = Some k"
proof (induction cs arbitrary: k)
  case Nil
  then show ?case by simp
next
  case (Cons a cs)
  show ?case
  proof (cases k)
    case 0
    with Cons.prems show ?thesis by simp
  next
    case (Suc k')
    with Cons.prems have a: "idx a \<noteq> i" by auto
    from Suc Cons.prems have "\<forall>j<k'. idx (cs ! j) \<noteq> i" by auto
    with Cons.IH [of k'] Suc Cons.prems have "get_client cs i = Some k'" by simp
    with a Suc show ?thesis by simp
  qed
qed

lemma join_slot_first: "j < join_slot cs \<Longrightarrow> idx (cs ! j) \<noteq> - 1"
proof (cases "get_client cs (- 1)")
  case None
  assume "j < join_slot cs"
  with None have "j < length cs" by (simp add: join_slot_def)
  then have "cs ! j \<in> set cs" by simp
  with None show ?thesis by (simp add: get_client_None)
next
  case (Some k)
  assume "j < join_slot cs"
  with Some have "j < k" by (simp add: join_slot_def)
  with Some show ?thesis by (rule get_client_first)
qed

text \<open>The state after a fresh id has joined and left again.\<close>

lemma join_leave:
  assumes ok: "slots_ok cs" and fresh: "\<forall>c\<in>set cs. idx c \<noteq> i"
  shows "\<exists>cs2 outs2.
           process [Client_join i n, Client_leave i] (cs, outs) = Inr (cs2, outs2) \<and>
           slots_ok cs2 \<and> get_client cs2 (- 1) = Some (join_slot cs) \<and>
           status (cs2 ! join_slot cs) = Error \<and>
           (\<forall>j < length cs. j \<noteq> join_slot cs \<longrightarrow> cs2 ! j = cs ! j)"
proof -
  let ?k = "join_slot cs"
  from join_fresh [OF ok fresh, of n outs] obtain cs1 outs1 where
    j: "on_client_join (i, n) (cs, outs) = Inr (cs1, outs1)" and
    ok1: "slots_ok cs1" and g1: "get_client cs1 i = Some ?k" and
    st1: "status (cs1 ! ?k) = 0" and
    same1: "\<forall>j < length cs. j \<noteq> ?k \<longrightarrow> cs1 ! j = cs ! j"
    by blast
  from g1 have k1: "?k < length cs1" by (simp add: get_client_SomeD)
  let ?cs2 = "cs1[?k := (cs1 ! ?k)\<lparr>idx := - 1, status := 2\<rparr>]"
  have l: "on_client_leave i (cs1, outs1) =
      Inr (?cs2, outs1 @ [Log 2 (Msg_left_not_done i (name (cs1 ! ?k))), Refresh ?k])"
    using leave_found [OF ok1 g1, of outs1] st1 by simp
  have ok2: "slots_ok ?cs2" using ok1 by (rule slots_ok_update) simp
  have before: "\<forall>j<?k. idx (?cs2 ! j) \<noteq> - 1"
  proof (intro allI impI)
    fix j assume jk: "j < ?k"
    with join_slot_le [of cs] have "j < length cs" by simp
    with jk same1 have "cs1 ! j = cs ! j" by simp
    moreover from jk have "idx (cs ! j) \<noteq> - 1" by (rule join_slot_first)
    ultimately show "idx (?cs2 ! j) \<noteq> - 1" using jk by simp
  qed
  have g2: "get_client ?cs2 (- 1) = Some ?k"
    using _ _ before by (rule get_client_SomeI) (simp_all add: k1)
  show ?thesis using j l ok2 g2 k1 same1 by simp
qed

text \<open>
  Claim C3. After client-join and client-leave of a fresh id \<open>i\<close>, a client-join of
  \<open>j\<close> appends nothing: it overwrites \<open>idx\<close>, \<open>status\<close> and \<open>progress\<close> of
  the record that \<open>i\<close> had used, whose \<open>listidx\<close> stays what it was. In any
  registry, a join keeps the length of the list when some record has \<open>idx = -1\<close>,
  and appends a record with \<open>listidx = len(records)\<close> when none has.
\<close>

theorem slot_reuse:
  assumes ok: "slots_ok cs" and fresh: "\<forall>c\<in>set cs. idx c \<noteq> i"
  shows "(\<exists>cs2 outs2.
            process [Client_join i n, Client_leave i] (cs, outs) = Inr (cs2, outs2) \<and>
            join_slot cs < length cs2 \<and> listidx (cs2 ! join_slot cs) = join_slot cs \<and>
            on_client_join (j, m) (cs2, outs2) =
              Inr (cs2[join_slot cs :=
                     (cs2 ! join_slot cs)\<lparr>idx := j, status := Recording, progress := PInt 0\<rparr>],
                   outs2 @ [Refresh (join_slot cs)])) \<and>
         ((\<exists>c\<in>set cs. idx c = - 1) \<longrightarrow>
            (\<exists>cs' outs'. on_client_join (j, m) (cs, outs) = Inr (cs', outs') \<and>
               length cs' = length cs)) \<and>
         ((\<forall>c\<in>set cs. idx c \<noteq> - 1) \<longrightarrow>
            on_client_join (j, m) (cs, outs) =
              Inr (cs @ [\<lparr>idx = j, status = Recording, name = m, progress = PInt 0,
                          listidx = length cs\<rparr>],
                   outs @ [Log 0 (Msg_client_join
                       \<lparr>idx = j, status = Recording, name = m, progress = PInt 0,
                        listidx = length cs\<rparr>),
                     Refresh (length cs)]))"
proof (intro conjI impI)
  from join_leave [OF ok fresh, of n outs] obtain cs2 outs2 where
    p: "process [Client_join i n, Client_leave i] (cs, outs) = Inr (cs2, outs2)" and
    ok2: "slots_ok cs2" and g2: "get_client cs2 (- 1) = Some (join_slot cs)"
    by blast
  from g2 have k: "join_slot cs < length cs2" by (simp add: get_client_SomeD)
  with ok2 have "listidx (cs2 ! join_slot cs) = join_slot cs" by (rule slots_ok_nth)
  with p k join_reuse [OF ok2 g2, of j m outs2]
  show "\<exists>cs2 outs2.
      process [Client_join i n, Client_leave i] (cs, outs) = Inr (cs2, outs2) \<and>
      join_slot cs < length cs2 \<and> listidx (cs2 ! join_slot cs) = join_slot cs \<and>
      on_client_join (j, m) (cs2, outs2) =
        Inr (cs2[join_slot cs :=
               (cs2 ! join_slot cs)\<lparr>idx := j, status := Recording, progress := PInt 0\<rparr>],
             outs2 @ [Refresh (join_slot cs)])"
    by simp
next
  assume "\<exists>c\<in>set cs. idx c = - 1"
  then obtain k where "get_client cs (- 1) = Some k"
    using get_client_None [of cs "- 1"] by (cases "get_client cs (- 1)") auto
  from join_reuse [OF ok this, of j m outs]
  show "\<exists>cs' outs'. on_client_join (j, m) (cs, outs) = Inr (cs', outs') \<and> length cs' = length cs"
    by simp
next
  assume "\<forall>c\<in>set cs. idx c \<noteq> - 1"
  then have "get_client cs (- 1) = None" by (simp add: get_client_None)
  then show "on_client_join (j, m) (cs, outs) =
      Inr (cs @ [\<lparr>idx = j, status = Recording, name = m, progress = PInt 0,
                  listidx = length cs\<rparr>],
           outs @ [Log 0 (Msg_client_join
               \<lparr>idx = j, status = Recording, name = m, progress = PInt 0,
                listidx = length cs\<rparr>),
             Refresh (length cs)])"
    by (simp add: join_append)
qed

theorem slot_reuse_witness:
  "\<exists>cs2 outs2.
      process [Client_join 5 ''handler/5'', Client_leave 5] ([c3], []) = Inr (cs2, outs2) \<and>
      1 < length cs2 \<and> listidx (cs2 ! 1) = 1 \<and>
      on_client_join (9, ''handler/9'') (cs2, outs2) =
        Inr (cs2[1 := (cs2 ! 1)\<lparr>idx := 9, status := Recording, progress := PInt 0\<rparr>],
             outs2 @ [Refresh 1])"
  using slot_reuse [of "[c3]" 5 "''handler/5''" "[]" 9 "''handler/9''"]
  by (simp add: slots_ok_def join_slot_def c3_def)

text \<open>
  Claim C7. A client-progress, client-done or client-leave event with a session id
  (a counter value, so not negative) that no live record carries does not raise, leaves
  every record as it is, and publishes one warning (level 2) on the log topic and
  nothing else.
\<close>

theorem unknown_id_only_warns:
  assumes "0 \<le> i" and "\<forall>c\<in>set cs. idx c \<noteq> - 1 \<longrightarrow> idx c \<noteq> i"
  shows "on_client_progress (i, p) (cs, outs) = Inr (cs, outs @ [Log 2 (Msg_progressed i)]) \<and>
         on_client_done i (cs, outs) = Inr (cs, outs @ [Log 2 (Msg_done i)]) \<and>
         on_client_leave i (cs, outs) = Inr (cs, outs @ [Log 2 (Msg_left i)])"
proof -
  from assms have "\<forall>c\<in>set cs. idx c \<noteq> i" by auto
  then have "get_client cs i = None" by (simp add: get_client_None)
  then show ?thesis
    by (simp add: on_client_progress_def on_client_done_def on_client_leave_def)
qed

theorem unknown_id_only_warns_witness:
  "on_client_progress (4, PStr ''x'') ([c3], []) = Inr ([c3], [Log 2 (Msg_progressed 4)]) \<and>
   on_client_done 4 ([c3], []) = Inr ([c3], [Log 2 (Msg_done 4)]) \<and>
   on_client_leave 4 ([c3], []) = Inr ([c3], [Log 2 (Msg_left 4)])"
  using unknown_id_only_warns [of 4 "[c3]" "PStr ''x''" "[]"]
  by (simp add: c3_def)

section \<open>Properties of the line protocol\<close>

lemma double_overflow_big: "1000000 < double_overflow"
  by (simp add: double_overflow_def)

lemma truediv_small:
  assumes "y \<noteq> 0" and "\<bar>of_int x / of_int y :: rat\<bar> \<le> 1000000"
  shows "truediv x y = Inr (Finite (of_int x / of_int y))"
proof -
  from assms(2) double_overflow_big have "\<not> double_overflow \<le> \<bar>of_int x / of_int y :: rat\<bar>"
    by linarith
  with assms(1) show ?thesis by (simp add: truediv_def)
qed

lemma to_float_small: "\<bar>r\<bar> \<le> 1000000 \<Longrightarrow> to_float r = Finite r"
  using double_overflow_big by (auto simp: to_float_def)

lemma split_3_10: "split ''progress 3 10\<newline>'' = [''progress'', ''3'', ''10'']"
  by (simp add: split_def isspace_def)

lemma py_float_50: "py_float ''50'' = Some (Finite 50)"
proof -
  have "decimal_literal ''50'' = Some 50"
    by (simp add: decimal_literal_def isdigit_def decimal_def digit_value_def)
  moreover have "to_float 50 = Finite 50"
    by (rule to_float_small) simp
  ultimately show ?thesis
    by (simp add: py_float_def isdigit_def lower_def)
qed

lemma py_float_banana: "py_float ''banana'' = None"
  by (simp add: py_float_def isdigit_def lower_def decimal_literal_def)

lemma py_int_3: "py_int ''3'' = Inr 3"
  by (simp add: py_int_def isdigit_def decimal_def digit_value_def)

lemma py_int_10: "py_int ''10'' = Inr 10"
  by (simp add: py_int_def isdigit_def decimal_def digit_value_def)

lemma py_int_x: "py_int ''x'' = Inl ValueError"
  by (simp add: py_int_def isdigit_def decimal_def digit_value_def)

lemma split_x_10: "split ''progress x 10\<newline>'' = [''progress'', ''x'', ''10'']"
  by (simp add: split_def isspace_def)

lemma split_50: "split ''progress 50\<newline>'' = [''progress'', ''50'']"
  by (simp add: split_def isspace_def)

lemma split_banana: "split ''progress banana\<newline>'' = [''progress'', ''banana'']"
  by (simp add: split_def isspace_def)

lemma prefix_7: "prefix 7 = ''handler/7''"
  by code_simp

lemma split_almost:
  "split ''progress almost done now\<newline>'' = [''progress'', ''almost'', ''done'', ''now'']"
  by (simp add: split_def isspace_def)

lemma py_float_almost: "py_float ''almost'' = None"
  by (simp add: py_float_def isdigit_def lower_def decimal_literal_def)

lemma split_done: "split ''done\<newline>'' = [''done'']"
  by (simp add: split_def isspace_def)

text \<open>
  Claim C4, at the input where the code leaves it. The line \<open>progress x 10\<close> has three
  tokens, so \<open>client_update\<close> evaluates \<open>int(args[1]) / int(args[2])\<close>, which stands
  outside the \<open>try\<close>: \<open>int('x')\<close> raises \<open>ValueError\<close>, nothing is published, and the
  consumer loop of the \<open>recv\<close> subscription ends with it, so that the line \<open>done\<close>
  sent after it is never handled. The branch for the other numbers of arguments does
  what the claim says: \<open>progress almost done now\<close> publishes the raw string \<open>almost\<close>.
\<close>

theorem progress_non_numeric_raises:
  "client_update 7 ''progress x 10\<newline>'' = Inl ValueError \<and>
   recv_listener 7 [''progress x 10\<newline>'', ''done\<newline>''] = [] \<and>
   recv_listener 7 [''done\<newline>''] =
     [(''log'', Log_entry 0 (Log_done 7)), (''client-done'', Session_id 7)] \<and>
   client_update 7 ''progress almost done now\<newline>'' =
     Inr [(''log'', Log_entry 0 (Log_progress 7 (PStr ''almost''))),
          (''handler/7/progress'', Progress_value (PStr ''almost'')),
          (''client-progress'', Id_progress 7 (PStr ''almost''))]"
proof -
  have 1: "client_update 7 ''progress x 10\<newline>'' = Inl ValueError"
    using split_x_10 py_int_x by (simp add: client_update_def progress_of_def)
  have 2: "client_update 7 ''done\<newline>'' =
      Inr [(''log'', Log_entry 0 (Log_done 7)), (''client-done'', Session_id 7)]"
    using split_done by (simp add: client_update_def)
  have 3: "client_update 7 ''progress almost done now\<newline>'' =
     Inr [(''log'', Log_entry 0 (Log_progress 7 (PStr ''almost''))),
          (''handler/7/progress'', Progress_value (PStr ''almost'')),
          (''client-progress'', Id_progress 7 (PStr ''almost''))]"
    using split_almost py_float_almost prefix_7
    by (simp add: client_update_def progress_of_def)
  from 1 2 3 show ?thesis by simp
qed

text \<open>
  Claim C5. For a line of the two tokens \<open>progress p\<close>, the progress value that
  \<open>client_update\<close> publishes is \<open>float(p) / 100\<close> when \<open>float(p)\<close> succeeds and the
  string \<open>p\<close> itself otherwise. \<open>progress 3 10\<close> gives 0.3, \<open>progress 50\<close> gives 0.5
  and \<open>progress banana\<close> gives the string \<open>banana\<close>.
\<close>

theorem progress_single_argument:
  "(split line = [''progress'', p] \<longrightarrow>
      (let v = (case py_float p of Some f \<Rightarrow> PFloat (div100 f) | None \<Rightarrow> PStr p)
       in client_update i line =
            Inr [(''log'', Log_entry 0 (Log_progress i v)),
                 (prefix i @ ''/progress'', Progress_value v),
                 (''client-progress'', Id_progress i v)])) \<and>
   progress_of (split ''progress 3 10\<newline>'') = Inr (PFloat (Finite (3 / 10))) \<and>
   progress_of (split ''progress 50\<newline>'') = Inr (PFloat (Finite (1 / 2))) \<and>
   progress_of (split ''progress banana\<newline>'') = Inr (PStr ''banana'')"
proof (intro conjI impI)
  assume "split line = [''progress'', p]"
  then show "let v = (case py_float p of Some f \<Rightarrow> PFloat (div100 f) | None \<Rightarrow> PStr p)
       in client_update i line =
            Inr [(''log'', Log_entry 0 (Log_progress i v)),
                 (prefix i @ ''/progress'', Progress_value v),
                 (''client-progress'', Id_progress i v)]"
    by (simp add: client_update_def progress_of_def Let_def split: option.splits)
next
  have "truediv 3 10 = Inr (Finite (of_int 3 / of_int 10))"
    by (rule truediv_small) simp_all
  then show "progress_of (split ''progress 3 10\<newline>'') = Inr (PFloat (Finite (3 / 10)))"
    by (simp add: split_3_10 progress_of_def py_int_3 py_int_10)
next
  show "progress_of (split ''progress 50\<newline>'') = Inr (PFloat (Finite (1 / 2)))"
    by (simp add: split_50 progress_of_def py_float_50)
next
  show "progress_of (split ''progress banana\<newline>'') = Inr (PStr ''banana'')"
    by (simp add: split_banana progress_of_def py_float_banana)
qed

theorem progress_single_argument_witness:
  "client_update 7 ''progress 50\<newline>'' =
     Inr [(''log'', Log_entry 0 (Log_progress 7 (PFloat (Finite (1 / 2))))),
          (''handler/7/progress'', Progress_value (PFloat (Finite (1 / 2)))),
          (''client-progress'', Id_progress 7 (PFloat (Finite (1 / 2))))] \<and>
   client_update 7 ''progress banana\<newline>'' =
     Inr [(''log'', Log_entry 0 (Log_progress 7 (PStr ''banana''))),
          (''handler/7/progress'', Progress_value (PStr ''banana'')),
          (''client-progress'', Id_progress 7 (PStr ''banana''))]"
  using progress_single_argument [of "''progress 50\<newline>''" "''50''" 7]
    progress_single_argument [of "''progress banana\<newline>''" "''banana''" 7]
  by (simp add: split_50 split_banana py_float_50 py_float_banana prefix_7 Let_def)

lemma client_update_no_leave:
  "client_update i l = Inr ps \<Longrightarrow> (''client-leave'', p) \<notin> set ps"
  by (auto simp: client_update_def Let_def prefix_def split: list.splits if_splits sum.splits)

lemma recv_listener_no_leave: "(''client-leave'', p) \<notin> set (recv_listener i ls)"
proof (induction ls)
  case Nil
  then show ?case by simp
next
  case (Cons l ls)
  show ?case
  proof (cases "client_update i l")
    case (Inl e)
    then show ?thesis by simp
  next
    case (Inr ps)
    then have "(''client-leave'', p) \<notin> set ps" by (rule client_update_no_leave)
    with Cons Inr show ?thesis by simp
  qed
qed

lemma reader_leave:
  "((''client-leave'', p) \<in> set (reader i rs)) =
   (p = Session_id i \<and> (\<exists>ls rest. rs = map Got ls @ IncompleteRead # rest))"
proof (induction rs)
  case Nil
  then show ?case by simp
next
  case (Cons r rs)
  show ?case
  proof (cases r)
    case (Got l)
    have "(\<exists>ls rest. Got l # rs = map Got ls @ IncompleteRead # rest) =
          (\<exists>ls rest. rs = map Got ls @ IncompleteRead # rest)"
    proof
      assume "\<exists>ls rest. Got l # rs = map Got ls @ IncompleteRead # rest"
      then obtain ls rest where e: "Got l # rs = map Got ls @ IncompleteRead # rest" by blast
      then show "\<exists>ls rest. rs = map Got ls @ IncompleteRead # rest"
        by (cases ls) auto
    next
      assume "\<exists>ls rest. rs = map Got ls @ IncompleteRead # rest"
      then obtain ls rest where "rs = map Got ls @ IncompleteRead # rest" by blast
      then have "Got l # rs = map Got (l # ls) @ IncompleteRead # rest" by simp
      then show "\<exists>ls rest. Got l # rs = map Got ls @ IncompleteRead # rest" by blast
    qed
    with Cons Got show ?thesis by (simp add: prefix_def)
  next
    case IncompleteRead
    have "IncompleteRead # rs = map Got [] @ IncompleteRead # rs" by simp
    then have "\<exists>ls rest. IncompleteRead # rs = map Got ls @ IncompleteRead # rest" by blast
    with IncompleteRead show ?thesis by auto
  next
    case Failed
    have "\<not> (\<exists>ls rest. Failed # rs = map Got ls @ IncompleteRead # rest)"
    proof
      assume "\<exists>ls rest. Failed # rs = map Got ls @ IncompleteRead # rest"
      then obtain ls rest where "Failed # rs = map Got ls @ IncompleteRead # rest" by blast
      then show False by (cases ls) auto
    qed
    with Failed show ?thesis by simp
  qed
qed

text \<open>
  Claim C9. The idle timeout never fires. Whatever lines a session receives, and
  whenever (neither \<open>client_update\<close> nor \<open>_reader\<close> reads a clock), the consumer of
  its \<open>recv\<close> topic publishes no \<open>client-leave\<close>; \<open>new_client\<close> subscribes
  \<open>client_update\<close> and \<open>_writer\<close> and nothing else (so never \<open>_ka\<close>, and nothing
  on the \<open>keepalive\<close> topic) and starts \<open>_reader\<close> alone; and \<open>_reader\<close> publishes
  \<open>client-leave\<close> exactly when the stream ends with \<open>IncompleteReadError\<close> after
  the lines read so far.
\<close>

theorem keepalive_never_fires:
  "(''client-leave'', p) \<notin> set (recv_listener i ls) \<and>
   filter (\<lambda>c. case c of Sub t f \<Rightarrow> True | _ \<Rightarrow> False) (new_client i) =
     [Sub (prefix i @ ''/recv'') Client_update, Sub (prefix i @ ''/send'') Writer] \<and>
   filter (\<lambda>c. case c of Run_as_task f \<Rightarrow> True | _ \<Rightarrow> False) (new_client i) =
     [Run_as_task Reader] \<and>
   ((''client-leave'', p) \<in> set (reader i rs)) =
     (p = Session_id i \<and> (\<exists>ls rest. rs = map Got ls @ IncompleteRead # rest))"
  by (simp add: recv_listener_no_leave reader_leave new_client_def)

theorem keepalive_never_fires_witness:
  "(''client-leave'', Session_id 4) \<notin>
     set (recv_listener 4 [''keepalive\<newline>'', ''keepalive\<newline>'', ''keepalive\<newline>'']) \<and>
   recv_listener 4 [''keepalive\<newline>'', ''keepalive\<newline>''] =
     [(''log'', Log_entry 0 (Log_keepalive 4)), (''handler/4/keepalive'', No_value),
      (''log'', Log_entry 0 (Log_keepalive 4)), (''handler/4/keepalive'', No_value)] \<and>
   reader 4 [Got ''keepalive\<newline>'', IncompleteRead] =
     [(''handler/4/recv'', Line ''keepalive\<newline>''), (''client-leave'', Session_id 4)]"
proof -
  have a: "(''client-leave'', Session_id 4) \<notin>
      set (recv_listener 4 [''keepalive\<newline>'', ''keepalive\<newline>'', ''keepalive\<newline>''])"
    using keepalive_never_fires [of "Session_id 4" 4
        "[''keepalive\<newline>'', ''keepalive\<newline>'', ''keepalive\<newline>'']"]
    by (rule conjunct1)
  have b: "recv_listener 4 [''keepalive\<newline>'', ''keepalive\<newline>''] =
     [(''log'', Log_entry 0 (Log_keepalive 4)), (''handler/4/keepalive'', No_value),
      (''log'', Log_entry 0 (Log_keepalive 4)), (''handler/4/keepalive'', No_value)]"
    by code_simp
  have c: "reader 4 [Got ''keepalive\<newline>'', IncompleteRead] =
     [(''handler/4/recv'', Line ''keepalive\<newline>''), (''client-leave'', Session_id 4)]"
    by code_simp
  from a b c show ?thesis by blast
qed

text \<open>
  Claim C10. \<open>client_update\<close> is not total: a line of white space only (the bare
  newline is one) splits into no token, and reading \<open>args[0]\<close> raises \<open>IndexError\<close>.
  A line whose first token is none of \<open>progress\<close>, \<open>alert\<close>, \<open>done\<close>, \<open>keepalive\<close>
  returns normally with no publication (so no log entry either).
\<close>

theorem client_update_not_total:
  "client_update i ''\<newline>'' = Inl IndexError \<and>
   (split line = [] \<longrightarrow> client_update i line = Inl IndexError) \<and>
   (split line = a0 # rest \<longrightarrow>
      a0 \<noteq> ''progress'' \<longrightarrow> a0 \<noteq> ''alert'' \<longrightarrow> a0 \<noteq> ''done'' \<longrightarrow> a0 \<noteq> ''keepalive'' \<longrightarrow>
      client_update i line = Inr [])"
  by (simp add: client_update_def split_def isspace_def)

theorem client_update_not_total_witness:
  "client_update 0 ''\<newline>'' = Inl IndexError \<and>
   client_update 0 '' \<newline>'' = Inl IndexError \<and>
   client_update 0 ''hello world\<newline>'' = Inr []"
  using client_update_not_total [of 0 "'' \<newline>''"]
    client_update_not_total [of 0 "''hello world\<newline>''" "''hello''" "[''world'']"]
  by (simp add: split_def isspace_def)

section \<open>Properties of the event bus\<close>


lemma set_iteration [simp]: "set (iteration n xs) = set xs"
proof (induction xs arbitrary: n)
  case Nil
  show ?case by simp
next
  case (Cons x xs)
  have "set (take k ys) \<union> set (drop k ys) = set ys" for k and ys :: "'a list"
    by (metis append_take_drop_id set_append)
  with Cons show ?case by (auto simp: Let_def)
qed

lemma length_iteration [simp]: "length (iteration n xs) = length xs"
  by (induction xs arbitrary: n) (auto simp: Let_def)

lemma distinct_middle: "distinct (as @ x # bs) = (x \<notin> set (as @ bs) \<and> distinct (as @ bs))"
  by auto

lemma distinct_iteration [simp]: "distinct (iteration n xs) = distinct xs"
proof (induction xs arbitrary: n)
  case Nil
  show ?case by simp
next
  case (Cons x xs)
  let ?ys = "iteration (n div Suc (length xs)) xs" and ?k = "n mod Suc (length xs)"
  have "distinct (take ?k ?ys @ x # drop ?k ?ys) = (x \<notin> set ?ys \<and> distinct ?ys)"
    unfolding distinct_middle append_take_drop_id ..
  with Cons [of "n div Suc (length xs)"] show ?case
    by (simp only: iteration.simps Let_def) simp
qed

text \<open>Every order of the elements is the iteration order for some number.\<close>

lemma iteration_any:
  "distinct xs \<Longrightarrow> distinct ys \<Longrightarrow> set ys = set xs \<Longrightarrow> \<exists>n. iteration n xs = ys"
proof (induction xs arbitrary: ys)
  case Nil
  then show ?case by simp
next
  case (Cons x xs)
  from Cons.prems have "x \<in> set ys" by simp
  then obtain as bs where ys: "ys = as @ x # bs" by (meson split_list)
  with Cons.prems have d: "distinct (as @ bs)" and s: "set (as @ bs) = set xs" by auto
  from Cons.prems(1) have "distinct xs" by simp
  from Cons.IH [OF this d s] obtain m where m: "iteration m xs = as @ bs" ..
  then have "length (as @ bs) = length xs" by (metis length_iteration)
  then have len: "length as < Suc (length xs)" by simp
  let ?n = "length as + m * Suc (length xs)"
  have "k < d \<Longrightarrow> (k + m * d) mod d = k \<and> (k + m * d) div d = m" for k d :: nat
    by simp
  from this [OF len] have "?n mod Suc (length xs) = length as" "?n div Suc (length xs) = m"
    by blast+
  with m ys have "iteration ?n (x # xs) = ys" by (simp only: iteration.simps Let_def) simp
  then show ?case ..
qed

lemma after_simps [simp]: "after (Inl (x, b)) = b" "after (Inr b) = b"
  by (simp_all add: after_def)

lemma awaiters_ok_cong:
  "task_awaiters b' = task_awaiters b \<Longrightarrow> awaiter_counter b' = awaiter_counter b \<Longrightarrow>
   done_events b' = done_events b \<Longrightarrow> history b' = history b \<Longrightarrow>
   drain_state b' = drain_state b \<or> drain_state b' \<noteq> Spinning \<Longrightarrow>
   awaiters_ok b \<Longrightarrow> awaiters_ok b'"
  by (auto simp: awaiters_ok_def)

lemma awaiters_ok_init: "awaiters_ok (init h)"
  by (simp add: awaiters_ok_def init_def deleted_first_def)

lemma spawn_awaiters:
  "spawn t e ss tids b = r \<Longrightarrow>
   (case r of Inl (x, b') \<Rightarrow> b' | Inr (tids', b') \<Rightarrow> b') = b' \<Longrightarrow>
   task_awaiters b' = task_awaiters b \<and> awaiter_counter b' = awaiter_counter b \<and>
   done_events b' = done_events b \<and> history b' = history b \<and>
   drain_state b' = drain_state b"
proof (induction ss arbitrary: tids b)
  case Nil
  then show ?case by auto
next
  case (Cons s ss)
  show ?case
  proof (cases "s \<in> services b")
    case True
    let ?b = "b\<lparr>ready := ready b @ [OnPub (next_task b) s t e], next_task := Suc (next_task b)\<rparr>"
    from True Cons.prems(1) have "spawn t e ss (tids @ [next_task b]) ?b = r" by simp
    from Cons.IH [OF this Cons.prems(2)] show ?thesis by simp
  next
    case False
    with Cons.prems show ?thesis by auto
  qed
qed

lemma awaiters_ok_run_tasks:
  "awaiters_ok b \<Longrightarrow> awaiters_ok (run_tasks tids b)"
  unfolding awaiters_ok_def run_tasks_def
  by (auto simp: less_Suc_eq)

lemma awaiters_ok_pub:
  assumes "awaiters_ok b"
  shows "awaiters_ok (after (pub t e b)) \<and>
         awaiter_counter b \<le> awaiter_counter (after (pub t e b)) \<and>
         drain_state (after (pub t e b)) = drain_state b"
proof (cases "topics b t")
  case None
  with assms show ?thesis by (simp add: pub_def)
next
  case (Some ss)
  let ?r = "spawn t e (iteration (hash_order b ss) ss) [] b"
  show ?thesis
  proof (cases ?r)
    case (Inl x)
    obtain err b' where x: "x = (err, b')" by (cases x)
    with Inl spawn_awaiters [of t e _ "[]" b ?r b'] 
    have f: "task_awaiters b' = task_awaiters b \<and> awaiter_counter b' = awaiter_counter b \<and>
      done_events b' = done_events b \<and> history b' = history b \<and>
      drain_state b' = drain_state b" by simp
    with assms have "awaiters_ok b'" by (intro awaiters_ok_cong [of b' b]) simp_all
    with f Some Inl x show ?thesis by (simp add: pub_def)
  next
    case (Inr y)
    obtain tids b' where y: "y = (tids, b')" by (cases y)
    with Inr spawn_awaiters [of t e _ "[]" b ?r b'] 
    have f: "task_awaiters b' = task_awaiters b \<and> awaiter_counter b' = awaiter_counter b \<and>
      done_events b' = done_events b \<and> history b' = history b \<and>
      drain_state b' = drain_state b" by simp
    with assms have "awaiters_ok b'" by (intro awaiters_ok_cong [of b' b]) simp_all
    then have "awaiters_ok (run_tasks tids b')" by (rule awaiters_ok_run_tasks)
    moreover have "awaiter_counter (run_tasks tids b') = Suc (awaiter_counter b')"
      "drain_state (run_tasks tids b') = drain_state b'" by (simp_all add: run_tasks_def)
    ultimately show ?thesis using f Some Inr y by (simp add: pub_def)
  qed
qed

lemma awaiters_ok_pubs:
  assumes "awaiters_ok b"
  shows "awaiters_ok (after (pubs ps b)) \<and>
         awaiter_counter b \<le> awaiter_counter (after (pubs ps b)) \<and>
         drain_state (after (pubs ps b)) = drain_state b"
  using assms
proof (induction ps arbitrary: b)
  case Nil
  then show ?case by simp
next
  case (Cons p ps)
  obtain t e where p: "p = (t, e)" by (cases p)
  note a = awaiters_ok_pub [OF Cons.prems, of t e]
  show ?case
  proof (cases "pub t e b")
    case (Inl x)
    obtain err b' where "x = (err, b')" by (cases x)
    with a p Inl show ?thesis by simp
  next
    case (Inr b')
    with a have "awaiters_ok b'" "awaiter_counter b \<le> awaiter_counter b'"
      "drain_state b' = drain_state b" by simp_all
    with Cons.IH [of b'] Inr p show ?thesis by simp
  qed
qed

lemma awaiters_ok_topic_listener:
  assumes "awaiters_ok b"
  shows "case topic_listener k f q b of (q', c, b') \<Rightarrow>
           awaiters_ok b' \<and> awaiter_counter b \<le> awaiter_counter b' \<and>
           drain_state b' = drain_state b"
  using assms
proof (induction q arbitrary: b)
  case Nil
  then show ?case by simp
next
  case (Cons e q)
  show ?case
  proof (cases "e = QUIT")
    case True
    with Cons.prems show ?thesis by simp
  next
    case False
    let ?b1 = "b\<lparr>trace := trace b @ [(k, e)]\<rparr>"
    from Cons.prems have a1: "awaiters_ok ?b1" by (intro awaiters_ok_cong [of ?b1 b]) simp_all
    note a = awaiters_ok_pubs [OF a1, of "f e"]
    show ?thesis
    proof (cases "pubs (f e) ?b1")
      case (Inl x)
      obtain err b' where "x = (err, b')" by (cases x)
      with a False Inl show ?thesis by simp
    next
      case (Inr b')
      with a have b': "awaiters_ok b'" and le: "awaiter_counter b \<le> awaiter_counter b'"
        and d: "drain_state b' = drain_state b" by simp_all
      obtain q' c b'' where res: "topic_listener k f q b' = (q', c, b'')"
        by (cases "topic_listener k f q b'")
      with Cons.IH [OF b'] have "awaiters_ok b''" "awaiter_counter b' \<le> awaiter_counter b''"
        "drain_state b'' = drain_state b'" by simp_all
      with le d False Inr res show ?thesis by simp
    qed
  qed
qed

lemma deleted_first_append:
  assumes "deleted_first h"
  shows "deleted_first (h @ [Deleted i, Signalled i])"
  unfolding deleted_first_def
proof (intro allI impI)
  fix n j
  assume n: "n < length (h @ [Deleted i, Signalled i])"
    and s: "(h @ [Deleted i, Signalled i]) ! n = Signalled j"
  consider "n < length h" | "n = length h" | "n = Suc (length h)" using n by fastforce
  then show "\<exists>m<n. (h @ [Deleted i, Signalled i]) ! m = Deleted j"
  proof cases
    case 1
    with s have "h ! n = Signalled j" by (simp add: nth_append)
    with assms 1 obtain m where "m < n" "h ! m = Deleted j" unfolding deleted_first_def by blast
    with 1 have "m < n \<and> (h @ [Deleted i, Signalled i]) ! m = Deleted j" by (simp add: nth_append)
    then show ?thesis ..
  next
    case 2
    with s show ?thesis by (simp add: nth_append)
  next
    case 3
    with s have "j = i" by (simp add: nth_append)
    with 3 have "length h < n \<and> (h @ [Deleted i, Signalled i]) ! length h = Deleted j"
      by (simp add: nth_append)
    then show ?thesis ..
  qed
qed

lemma history_await_tasks_end:
  "task_awaiters b i \<noteq> None \<Longrightarrow>
   history (await_tasks_end i b) = history b @ [Deleted i, Signalled i]"
  by (auto simp: await_tasks_end_def set_done_def del_awaiter_def Let_def)

lemma awaiters_ok_await_tasks_end:
  assumes "awaiters_ok b"
  shows "awaiters_ok (await_tasks_end i b)"
proof (cases "task_awaiters b i")
  case None
  with assms show ?thesis by (simp add: await_tasks_end_def)
next
  case (Some tids)
  let ?b = "await_tasks_end i b"
  have f: "task_awaiters ?b = (task_awaiters b)(i := None)" "awaiter_counter ?b = awaiter_counter b"
    "done_events ?b = insert i (done_events b)" "history ?b = history b @ [Deleted i, Signalled i]"
    "drain_state ?b = drain_state b \<or> drain_state ?b = Woken"
    using Some by (simp_all add: await_tasks_end_def set_done_def del_awaiter_def Let_def)
  from assms Some have i: "i < awaiter_counter b" by (auto simp: awaiters_ok_def)
  from assms have "deleted_first (history b)" by (simp add: awaiters_ok_def)
  then have d: "deleted_first (history ?b)" unfolding f(4) by (rule deleted_first_append)
  from f(5) assms have s: "drain_state ?b \<noteq> Spinning" by (auto simp: awaiters_ok_def)
  from assms i d s show ?thesis
    unfolding awaiters_ok_def f(1-4) by auto
qed

lemma awaiter_counter_await_tasks_end [simp]:
  "awaiter_counter (await_tasks_end i b) = awaiter_counter b"
  by (simp add: await_tasks_end_def set_done_def del_awaiter_def Let_def split: option.splits)

lemma drain_state_await_tasks_end:
  "drain_state (await_tasks_end i b) = drain_state b \<or> drain_state (await_tasks_end i b) = Woken"
  by (simp add: await_tasks_end_def set_done_def del_awaiter_def Let_def split: option.splits)

lemma awaiters_ok_finish: "awaiters_ok b \<Longrightarrow> awaiters_ok (finish tid b)"
  by (rule awaiters_ok_cong [of _ b]) (simp_all add: finish_def)

lemma awaiters_ok_on_pub: "awaiters_ok b \<Longrightarrow> awaiters_ok (on_pub s t e b)"
  by (rule awaiters_ok_cong [of _ b]) (simp_all add: on_pub_def split: option.splits)

lemma awaiters_ok_wait_tasks: "awaiters_ok b \<Longrightarrow> awaiters_ok (wait_tasks i tids b)"
  by (rule awaiters_ok_cong [of _ b]) (simp_all add: wait_tasks_def)

lemma awaiters_ok_on_completion: "awaiters_ok b \<Longrightarrow> awaiters_ok (on_completion i b)"
  by (rule awaiters_ok_cong [of _ b]) (simp_all add: on_completion_def Let_def)

lemma first_awaiter_None:
  assumes "first_awaiter b = None" and "awaiters_ok b"
  shows "task_awaiters b = Map.empty \<and> (\<forall>i<awaiter_counter b. i \<in> done_events b)"
proof -
  from assms(1) have n: "\<forall>i<awaiter_counter b. task_awaiters b i = None"
    by (auto simp: first_awaiter_def find_None_iff)
  with assms(2) have "\<forall>i. task_awaiters b i = None" unfolding awaiters_ok_def by blast
  then have "task_awaiters b = Map.empty" by auto
  moreover from n assms(2) have "\<forall>i<awaiter_counter b. i \<in> done_events b"
    unfolding awaiters_ok_def by blast
  ultimately show ?thesis by simp
qed

lemma find_holds: "List.find P xs = Some x \<Longrightarrow> P x"
  by (induction xs) (auto split: if_splits)

lemma first_awaiter_Some:
  assumes "first_awaiter b = Some i" and "awaiters_ok b"
  shows "i \<notin> done_events b"
proof
  assume d: "i \<in> done_events b"
  from assms(1) have "task_awaiters b i \<noteq> None"
    using find_holds [of "\<lambda>i. task_awaiters b i \<noteq> None" "[0..<awaiter_counter b]" i]
    by (simp add: first_awaiter_def)
  moreover from assms(2) have "\<forall>i\<in>done_events b. task_awaiters b i = None"
    by (simp add: awaiters_ok_def)
  ultimately show False using d by simp
qed

lemma awaiters_ok_drain_loop:
  assumes "awaiters_ok b"
  shows "awaiters_ok (drain_loop b)"
proof (cases "first_awaiter b")
  case None
  then have eq: "drain_loop b = b\<lparr>drain_state := Returned\<rparr>" by (simp add: drain_loop_def)
  from assms show ?thesis unfolding eq by (rule awaiters_ok_cong [rotated -1]) simp_all
next
  case (Some i)
  with assms have "i \<notin> done_events b" by (rule first_awaiter_Some [rotated])
  with Some have eq: "drain_loop b = b\<lparr>drain_state := Done_wait i\<rparr>" by (simp add: drain_loop_def)
  from assms show ?thesis unfolding eq by (rule awaiters_ok_cong [rotated -1]) simp_all
qed

lemma awaiters_ok_quit:
  assumes "awaiters_ok b"
  shows "awaiters_ok (quit b)"
proof -
  have "drain_state (quit b) = drain_state b \<or> drain_state (quit b) \<noteq> Spinning"
    by (simp add: quit_def)
  with assms show ?thesis
    by (intro awaiters_ok_cong [of "quit b" b]) (simp_all add: quit_def)
qed

lemma awaiters_ok_wait_start:
  assumes "awaiters_ok b"
  shows "awaiters_ok (wait_start b)"
proof -
  from assms have q: "awaiters_ok (b\<lparr>drain_state := Quit_wait\<rparr>)"
    by (rule awaiters_ok_cong [of _ b, rotated -1]) simp_all
  from assms have d: "awaiters_ok (drain_loop b)" by (rule awaiters_ok_drain_loop)
  consider "drain_state b \<noteq> Not_called" | "drain_state b = Not_called" "quit_event b"
    | "drain_state b = Not_called" "\<not> quit_event b" by blast
  then show ?thesis
  proof cases
    case 1
    with assms show ?thesis by (simp add: wait_start_def)
  next
    case 2
    with d show ?thesis by (simp add: wait_start_def)
  next
    case 3
    with q show ?thesis by (simp add: wait_start_def)
  qed
qed

lemma exec_awaiters:
  assumes "awaiters_ok b"
  shows "awaiters_ok (exec x b) \<and> awaiter_counter b \<le> awaiter_counter (exec x b) \<and>
         (x \<noteq> Drain \<longrightarrow>
            drain_state (exec x b) = drain_state b \<or> drain_state (exec x b) = Woken)"
proof (cases x)
  case (OnPub tid s t e)
  from assms have "awaiters_ok (finish tid (on_pub s t e b))"
    by (intro awaiters_ok_finish awaiters_ok_on_pub)
  moreover have "awaiter_counter (finish tid (on_pub s t e b)) = awaiter_counter b"
    "drain_state (finish tid (on_pub s t e b)) = drain_state b"
    by (simp_all add: finish_def on_pub_def split: option.splits)
  ultimately show ?thesis using OnPub by simp
next
  case (Listener s t)
  show ?thesis
  proof (cases "subs b (s, t)")
    case None
    with assms Listener show ?thesis by simp
  next
    case (Some sb)
    obtain q' c b' where res: "topic_listener (s, t) (func sb) (queue sb) b = (q', c, b')"
      by (cases "topic_listener (s, t) (func sb) (queue sb) b")
    with awaiters_ok_topic_listener [OF assms, of "(s, t)" "func sb" "queue sb"]
    have 1: "awaiters_ok b'" and 2: "awaiter_counter b \<le> awaiter_counter b'"
      and 3: "drain_state b' = drain_state b" by simp_all
    from 1 have "awaiters_ok (b'\<lparr>subs := (subs b')((s, t) \<mapsto> sb\<lparr>queue := q', consumer := c\<rparr>)\<rparr>)"
      by (rule awaiters_ok_cong [rotated -1]) simp_all
    with assms 2 3 Listener Some res show ?thesis by simp
  qed
next
  case (Await_start i)
  show ?thesis
  proof (cases "task_awaiters b i")
    case None
    with assms Await_start show ?thesis by simp
  next
    case (Some tids)
    show ?thesis
    proof (cases "tids = []")
      case True
      with Some Await_start have "exec x b = await_tasks_end i b" by simp
      with assms drain_state_await_tasks_end [of i b] Await_start show ?thesis
        by (simp add: awaiters_ok_await_tasks_end)
    next
      case False
      with Some Await_start have "exec x b = wait_tasks i tids b" by simp
      moreover have "awaiter_counter (wait_tasks i tids b) = awaiter_counter b"
        "drain_state (wait_tasks i tids b) = drain_state b" by (simp_all add: wait_tasks_def)
      ultimately show ?thesis using assms by (simp add: awaiters_ok_wait_tasks)
    qed
  qed
next
  case (On_completion i)
  have "awaiter_counter (on_completion i b) = awaiter_counter b"
    "drain_state (on_completion i b) = drain_state b" by (simp_all add: on_completion_def Let_def)
  with assms On_completion show ?thesis by (simp add: awaiters_ok_on_completion)
next
  case (Await_resume i)
  with assms drain_state_await_tasks_end [of i b] show ?thesis
    by (simp add: awaiters_ok_await_tasks_end)
next
  case Drain
  have "awaiter_counter (drain_loop b) = awaiter_counter b"
    by (simp add: drain_loop_def split: option.splits)
  with assms Drain show ?thesis by (simp add: awaiters_ok_drain_loop)
qed

lemma awaiters_ok_step:
  assumes "awaiters_ok b"
  shows "awaiters_ok (step b) \<and> awaiter_counter b \<le> awaiter_counter (step b)"
proof (cases "ready b")
  case Nil
  with assms show ?thesis by (simp add: step_def)
next
  case (Cons x xs)
  from assms have "awaiters_ok (b\<lparr>ready := xs\<rparr>)" by (rule awaiters_ok_cong [rotated -1]) simp_all
  from exec_awaiters [OF this, of x] Cons show ?thesis by (simp add: step_def)
qed

lemma step_returned:
  assumes "awaiters_ok b" and "drain_state b \<noteq> Returned" and "drain_state (step b) = Returned"
  shows "task_awaiters (step b) = Map.empty \<and> (\<forall>j<awaiter_counter (step b). j \<in> done_events (step b))"
proof (cases "ready b")
  case Nil
  with assms show ?thesis by (simp add: step_def)
next
  case (Cons x xs)
  let ?b = "b\<lparr>ready := xs\<rparr>"
  from assms(1) have a: "awaiters_ok ?b" by (rule awaiters_ok_cong [rotated -1]) simp_all
  from Cons have s: "step b = exec x ?b" by (simp add: step_def)
  show ?thesis
  proof (cases "x = Drain")
    case False
    with exec_awaiters [OF a, of x] assms s show ?thesis by auto
  next
    case True
    show ?thesis
    proof (cases "first_awaiter ?b")
      case None
      with True s have "step b = ?b\<lparr>drain_state := Returned\<rparr>" by (simp add: drain_loop_def)
      with first_awaiter_None [OF None a] show ?thesis by simp
    next
      case (Some i)
      with True s assms(3) show ?thesis by (simp add: drain_loop_def split: if_splits)
    qed
  qed
qed

lemma wait_start_returned:
  assumes "awaiters_ok b" and "drain_state b \<noteq> Returned" and "drain_state (wait_start b) = Returned"
  shows "task_awaiters (wait_start b) = Map.empty \<and>
         (\<forall>j<awaiter_counter (wait_start b). j \<in> done_events (wait_start b))"
proof -
  from assms(2,3) have w: "wait_start b = drain_loop b"
    by (auto simp: wait_start_def split: if_splits)
  show ?thesis
  proof (cases "first_awaiter b")
    case None
    with w have "wait_start b = b\<lparr>drain_state := Returned\<rparr>" by (simp add: drain_loop_def)
    with first_awaiter_None [OF None assms(1)] show ?thesis by simp
  next
    case (Some i)
    with w assms(3) show ?thesis by (simp add: drain_loop_def split: if_splits)
  qed
qed

lemma awaiter_counter_wait_start [simp]: "awaiter_counter (wait_start b) = awaiter_counter b"
  by (simp add: wait_start_def drain_loop_def split: option.splits)

lemma run_loop_returns:
  assumes "awaiters_ok b"
    and "drain_state b = Returned \<longrightarrow>
      task_awaiters b = Map.empty \<and> (\<forall>j<awaiter_counter b. j \<in> done_events b)"
    and "run_loop n b = Some b'"
  shows "task_awaiters b' = Map.empty \<and> awaiter_counter b \<le> awaiter_counter b' \<and>
         (\<forall>j<awaiter_counter b'. j \<in> done_events b')"
  using assms
proof (induction n arbitrary: b)
  case 0
  then show ?case by simp
next
  case (Suc n)
  show ?case
  proof (cases "drain_state b = Returned")
    case True
    with Suc.prems show ?thesis by simp
  next
    case False
    with Suc.prems(3) have r: "run_loop n (step b) = Some b'" by (simp split: if_splits)
    from Suc.prems(1) have a: "awaiters_ok (step b)" and le: "awaiter_counter b \<le> awaiter_counter (step b)"
      by (simp_all add: awaiters_ok_step)
    have "drain_state (step b) = Returned \<longrightarrow>
      task_awaiters (step b) = Map.empty \<and> (\<forall>j<awaiter_counter (step b). j \<in> done_events (step b))"
      using step_returned [OF Suc.prems(1) False] by blast
    from Suc.IH [OF a this r] le show ?thesis by simp
  qed
qed

text \<open>The invariant holds in every reachable state.\<close>

lemma reachable_ok: "reachable b \<Longrightarrow> awaiters_ok b"
proof (induction rule: reachable.induct)
  case (r_init h)
  show ?case by (rule awaiters_ok_init)
next
  case (r_create_topic b t)
  from r_create_topic.IH show ?case
    by (rule awaiters_ok_cong [rotated -1]) (simp_all add: create_topic_def)
next
  case (r_register b s)
  from r_register.IH show ?case
    by (rule awaiters_ok_cong [rotated -1]) (simp_all add: register_def create_topic_def)
next
  case (r_pub b t e)
  then show ?case by (simp add: awaiters_ok_pub)
next
  case (r_close_topic b t)
  from awaiters_ok_pub [OF r_close_topic.IH, of t QUIT]
  have a: "awaiters_ok (after (pub t QUIT b))" by simp
  show ?case
  proof (cases "pub t QUIT b")
    case (Inl x)
    obtain err b' where "x = (err, b')" by (cases x)
    with a Inl show ?thesis by (simp add: close_topic_def)
  next
    case (Inr b')
    with a have "awaiters_ok b'" by simp
    then have "awaiters_ok (b'\<lparr>topics := (topics b')(t := None)\<rparr>)"
      by (rule awaiters_ok_cong [rotated -1]) simp_all
    with Inr show ?thesis by (simp add: close_topic_def)
  qed
next
  case (r_sub b s t f)
  from r_sub.IH show ?case
    by (rule awaiters_ok_cong [rotated -1]) (simp_all add: sub_def Let_def split: option.splits)
next
  case (r_run_as_task b)
  from r_run_as_task.IH
  have "awaiters_ok (b\<lparr>external := insert (next_task b) (external b), next_task := Suc (next_task b)\<rparr>)"
    by (rule awaiters_ok_cong [rotated -1]) simp_all
  then show ?case unfolding run_as_task_def by (rule awaiters_ok_run_tasks)
next
  case (r_step b)
  then show ?case by (simp add: awaiters_ok_step)
next
  case (r_external_done b tid)
  then show ?case by (simp add: external_done_def awaiters_ok_finish)
next
  case (r_quit b)
  from r_quit.IH show ?case by (rule awaiters_ok_quit)
next
  case (r_wait_start b)
  from r_wait_start.IH show ?case by (rule awaiters_ok_wait_start)
qed

lemma reachable_steps: "reachable b \<Longrightarrow> reachable (steps n b)"
  by (induction n arbitrary: b) (simp_all add: r_step)

lemma reachable_demo: "reachable demo"
  unfolding demo_def by (intro reachable.intros)

text \<open>
  Claim C8. \<open>_await_tasks\<close> ends with the deletion of its awaiter from
  \<open>_task_awaiters\<close> followed by \<open>set()\<close> on its event, in this order and with no
  suspension between. So in every reachable state: an awaiter whose event is set is no
  longer in \<open>_task_awaiters\<close>; in the history of the two statements every \<open>set()\<close>
  comes after the deletion of the same awaiter, and the events that are set are those
  of the history; and the loop of \<open>wait\<close>, which waits for the event of an awaiter it
  has found in \<open>_task_awaiters\<close>, never finds that event set already. The loop of
  \<open>wait\<close> reads \<open>_task_awaiters\<close> anew every time it is woken: the iteration of the
  event loop in which \<open>wait\<close> returns leaves \<open>_task_awaiters\<close> empty and every awaiter
  ever registered with its event set, and so does \<open>wait\<close> run from any state, whatever
  awaiters the handlers register while it waits.
\<close>

theorem awaiters_drained:
  assumes "reachable b"
  shows "(\<forall>i\<in>done_events b. task_awaiters b i = None) \<and>
         (\<forall>i. task_awaiters b i \<noteq> None \<longrightarrow>
            history (await_tasks_end i b) = history b @ [Deleted i, Signalled i]) \<and>
         deleted_first (history b) \<and>
         (\<forall>i. (i \<in> done_events b) = (Signalled i \<in> set (history b))) \<and>
         drain_state b \<noteq> Spinning \<and>
         (drain_state b \<noteq> Returned \<and> drain_state (step b) = Returned \<longrightarrow>
            task_awaiters (step b) = Map.empty \<and>
            (\<forall>j<awaiter_counter (step b). j \<in> done_events (step b))) \<and>
         (drain_state b \<noteq> Returned \<longrightarrow>
            (\<forall>n b'. wait n b = Some b' \<longrightarrow>
               task_awaiters b' = Map.empty \<and>
               awaiter_counter b \<le> awaiter_counter b' \<and>
               (\<forall>j<awaiter_counter b'. j \<in> done_events b')))"
proof -
  from assms have a: "awaiters_ok b" by (rule reachable_ok)
  then have 1: "\<forall>i\<in>done_events b. task_awaiters b i = None"
    and 3: "deleted_first (history b)"
    and 4: "\<forall>i. (i \<in> done_events b) = (Signalled i \<in> set (history b))"
    and 5: "drain_state b \<noteq> Spinning"
    by (simp_all add: awaiters_ok_def)
  have 2: "\<forall>i. task_awaiters b i \<noteq> None \<longrightarrow>
      history (await_tasks_end i b) = history b @ [Deleted i, Signalled i]"
    by (simp add: history_await_tasks_end)
  have 6: "drain_state b \<noteq> Returned \<and> drain_state (step b) = Returned \<longrightarrow>
      task_awaiters (step b) = Map.empty \<and>
      (\<forall>j<awaiter_counter (step b). j \<in> done_events (step b))"
    using step_returned [OF a] by blast
  have 7: "drain_state b \<noteq> Returned \<longrightarrow>
      (\<forall>n b'. wait n b = Some b' \<longrightarrow>
         task_awaiters b' = Map.empty \<and>
         awaiter_counter b \<le> awaiter_counter b' \<and>
         (\<forall>j<awaiter_counter b'. j \<in> done_events b'))"
  proof (intro allI impI)
    fix n b'
    assume d: "drain_state b \<noteq> Returned" and w: "wait n b = Some b'"
    from a have a': "awaiters_ok (wait_start b)" by (rule awaiters_ok_wait_start)
    have "drain_state (wait_start b) = Returned \<longrightarrow>
      task_awaiters (wait_start b) = Map.empty \<and>
      (\<forall>j<awaiter_counter (wait_start b). j \<in> done_events (wait_start b))"
      using wait_start_returned [OF a d] by blast
    from run_loop_returns [OF a' this, of n b'] w
    show "task_awaiters b' = Map.empty \<and>
         awaiter_counter b \<le> awaiter_counter b' \<and>
         (\<forall>j<awaiter_counter b'. j \<in> done_events b')" by (simp add: wait_def)
  qed
  from 1 2 3 4 5 6 7 show ?thesis by blast
qed

lemma demo_quit: "drain_state (quit demo) = Not_called \<and> awaiter_counter (quit demo) = 1"
  by code_simp

lemma demo_wait:
  "map_option (\<lambda>b. (awaiter_counter b, history b)) (wait 20 (quit demo)) =
     Some (2, [Deleted 0, Signalled 0, Deleted 1, Signalled 1])"
  by code_simp

lemma demo_woken:
  "(\<lambda>b. (drain_state b, history b, 0 \<in> done_events b, first_awaiter b))
     (steps 12 (wait_start (quit demo))) =
   (Done_wait 1, [Deleted 0, Signalled 0], True, Some 1)"
  by code_simp

theorem awaiters_drained_witness:
  "awaiter_counter (quit demo) = 1 \<and>
   (\<exists>b'. wait 20 (quit demo) = Some b' \<and> task_awaiters b' = Map.empty \<and>
      awaiter_counter b' = 2 \<and> 0 \<in> done_events b' \<and> 1 \<in> done_events b' \<and>
      history b' = [Deleted 0, Signalled 0, Deleted 1, Signalled 1]) \<and>
   drain_state (steps 12 (wait_start (quit demo))) = Done_wait 1 \<and>
   history (steps 12 (wait_start (quit demo))) = [Deleted 0, Signalled 0] \<and>
   0 \<in> done_events (steps 12 (wait_start (quit demo))) \<and>
   task_awaiters (steps 12 (wait_start (quit demo))) 0 = None \<and>
   first_awaiter (steps 12 (wait_start (quit demo))) = Some 1"
proof -
  have r: "reachable (quit demo)" by (intro r_quit reachable_demo)
  then have r': "reachable (steps 12 (wait_start (quit demo)))"
    by (intro reachable_steps r_wait_start)
  from demo_quit have d: "drain_state (quit demo) \<noteq> Returned" by simp
  from demo_wait obtain b' where w: "wait 20 (quit demo) = Some b'"
    and c: "awaiter_counter b' = 2"
    and h: "history b' = [Deleted 0, Signalled 0, Deleted 1, Signalled 1]" by auto
  from awaiters_drained [OF r] d w
  have "task_awaiters b' = Map.empty" and "\<forall>j<awaiter_counter b'. j \<in> done_events b'"
    by blast+
  with c have "task_awaiters b' = Map.empty \<and> 0 \<in> done_events b' \<and> 1 \<in> done_events b'"
    by simp
  with w c h have 1: "\<exists>b'. wait 20 (quit demo) = Some b' \<and> task_awaiters b' = Map.empty \<and>
      awaiter_counter b' = 2 \<and> 0 \<in> done_events b' \<and> 1 \<in> done_events b' \<and>
      history b' = [Deleted 0, Signalled 0, Deleted 1, Signalled 1]" by blast
  from demo_woken have 2: "drain_state (steps 12 (wait_start (quit demo))) = Done_wait 1"
    and 3: "history (steps 12 (wait_start (quit demo))) = [Deleted 0, Signalled 0]"
    and 4: "0 \<in> done_events (steps 12 (wait_start (quit demo)))"
    and 6: "first_awaiter (steps 12 (wait_start (quit demo))) = Some 1" by simp_all
  from awaiters_drained [OF r'] 4
  have 5: "task_awaiters (steps 12 (wait_start (quit demo))) 0 = None" by blast
  from demo_quit 1 2 3 4 5 6 show ?thesis by blast
qed

lemma upt_shift: "[n..<Suc (n + m)] = n # [Suc n..<Suc (n + m)]"
  by (simp add: upt_conv_Cons del: upt_Suc)

text \<open>The tasks that \<open>pub\<close> creates for the subscribers \<open>ss\<close>, numbered from \<open>next_task\<close>.\<close>

lemma spawn_ok:
  "set ss \<subseteq> services b \<Longrightarrow>
   spawn t e ss tids b =
     Inr (tids @ [next_task b..<next_task b + length ss],
          b\<lparr>ready := ready b @ map (\<lambda>(i, s). OnPub i s t e)
                                  (zip [next_task b..<next_task b + length ss] ss),
            next_task := next_task b + length ss\<rparr>)"
proof (induction ss arbitrary: tids b)
  case Nil
  then show ?case by simp
next
  case (Cons s ss)
  let ?b = "b\<lparr>ready := ready b @ [OnPub (next_task b) s t e], next_task := Suc (next_task b)\<rparr>"
  from Cons.prems have "set ss \<subseteq> services ?b" by simp
  from Cons.IH [OF this, of "tids @ [next_task b]"] Cons.prems
  show ?case by (simp add: upt_shift del: upt_Suc)
qed

lemma pub_ok:
  assumes "topics_ok b" and "topics b t = Some ss"
  shows "pub t e b =
     Inr (b\<lparr>ready := ready b @ map (\<lambda>(i, s). OnPub i s t e)
                 (zip [next_task b..<next_task b + length ss] (iteration (hash_order b ss) ss))
                     @ [Await_start (awaiter_counter b)],
            next_task := next_task b + length ss,
            task_awaiters := (task_awaiters b)
               (awaiter_counter b \<mapsto> [next_task b..<next_task b + length ss]),
            awaiter_counter := Suc (awaiter_counter b)\<rparr>)"
proof -
  from assms have "set (iteration (hash_order b ss) ss) \<subseteq> services b"
    by (auto simp: topics_ok_def)
  from spawn_ok [OF this, of t e "[]"] assms(2) show ?thesis
    by (simp add: pub_def run_tasks_def)
qed

lemma pub_unknown: "topics b t = None \<Longrightarrow> pub t e b = Inl (AssertionError, b)"
  by (simp add: pub_def)






lemma extends_refl: "extends b b"
  by (simp add: extends_def)

lemma extends_trans: "extends a b \<Longrightarrow> extends b c \<Longrightarrow> extends a c"
  unfolding extends_def by (elim conjE exE) (rule conjI | simp | fastforce)+




lemma pub_cases:
  assumes "topics_ok b"
  obtains (unknown) "topics b t = None" "pub t e b = Inl (AssertionError, b)"
  | (known) ss where "topics b t = Some ss"
      "pub t e b =
        Inr (b\<lparr>ready := ready b @ map (\<lambda>(i, s). OnPub i s t e)
                 (zip [next_task b..<next_task b + length ss] (iteration (hash_order b ss) ss))
                     @ [Await_start (awaiter_counter b)],
            next_task := next_task b + length ss,
            task_awaiters := (task_awaiters b)
               (awaiter_counter b \<mapsto> [next_task b..<next_task b + length ss]),
            awaiter_counter := Suc (awaiter_counter b)\<rparr>)"
  using assms pub_ok pub_unknown by (cases "topics b t") blast+

lemma in_spawned:
  "x \<in> set (map (\<lambda>(i, s). OnPub i s t e) (zip ns ss)) \<Longrightarrow> \<exists>tid s. x = OnPub tid s t e \<and> s \<in> set ss"
  by (auto dest: set_zip_rightD)

text \<open>What a publication keeps, invariant by invariant.\<close>

lemma pub_keeps:
  assumes t: "topics_ok b"
  shows "topics_ok (after (pub t e b))"
    and "extends b (after (pub t e b))"
    and "trace (after (pub t e b)) = trace b"
    and "ready_ok b \<Longrightarrow> ready_ok (after (pub t e b))"
proof -
  from t have "topics_ok (after (pub t e b)) \<and> extends b (after (pub t e b)) \<and>
      trace (after (pub t e b)) = trace b \<and> (ready_ok b \<longrightarrow> ready_ok (after (pub t e b)))"
  proof (cases rule: pub_cases [of b t e])
    case unknown
    with t show ?thesis by (simp add: extends_refl)
  next
    case (known ss)
    let ?it = "iteration (hash_order b ss) ss"
    from t known(1) have ss: "\<forall>s\<in>set ?it. subs b (s, t) \<noteq> None" by (auto simp: topics_ok_def)
    have sp: "\<forall>x\<in>set (map (\<lambda>(i, s). OnPub i s t e) (zip [next_task b..<next_task b + length ss] ?it)).
        \<exists>tid s. x = OnPub tid s t e \<and> s \<in> set ?it"
      using in_spawned by blast
    have 1: "topics_ok (after (pub t e b))" using t unfolding known(2) by (simp add: topics_ok_def)
    have 2: "extends b (after (pub t e b))"
      using sp unfolding known(2) by (fastforce simp add: extends_def)
    have 3: "trace (after (pub t e b)) = trace b" unfolding known(2) by simp
    have 4: "ready_ok b \<longrightarrow> ready_ok (after (pub t e b))"
      using sp ss unfolding known(2) by (fastforce simp add: ready_ok_def)
    from 1 2 3 4 show ?thesis by blast
  qed
  then show "topics_ok (after (pub t e b))"
    and "extends b (after (pub t e b))"
    and "trace (after (pub t e b)) = trace b"
    and "ready_ok b \<Longrightarrow> ready_ok (after (pub t e b))"
    by blast+
qed

lemma pubs_keeps:
  assumes t: "topics_ok b"
  shows "topics_ok (after (pubs ps b)) \<and> extends b (after (pubs ps b)) \<and>
         trace (after (pubs ps b)) = trace b \<and> (ready_ok b \<longrightarrow> ready_ok (after (pubs ps b)))"
  using t
proof (induction ps arbitrary: b)
  case Nil
  then show ?case by (simp add: extends_refl)
next
  case (Cons p ps)
  obtain t e where p: "p = (t, e)" by (cases p)
  note k = pub_keeps [OF Cons.prems, of t e]
  show ?case
  proof (cases "pub t e b")
    case (Inl x)
    obtain err b' where "x = (err, b')" by (cases x)
    with k p Inl show ?thesis by simp
  next
    case (Inr b')
    with k have t': "topics_ok b'" and e': "extends b b'" and tr: "trace b' = trace b"
      and r': "ready_ok b \<longrightarrow> ready_ok b'"
      by auto
    from Cons.IH [OF t'] have IH: "topics_ok (after (pubs ps b'))" "extends b' (after (pubs ps b'))"
      "trace (after (pubs ps b')) = trace b'" "ready_ok b' \<longrightarrow> ready_ok (after (pubs ps b'))"
      by blast+
    from e' IH(2) have "extends b (after (pubs ps b'))" by (rule extends_trans)
    with IH(1,3,4) tr r' Inr p show ?thesis by simp
  qed
qed

text \<open>What the consumer loop keeps, and what it leaves.\<close>

lemma topic_listener_keeps:
  assumes "topics_ok b"
  shows "case topic_listener k f q b of (q', c, b') \<Rightarrow>
           topics_ok b' \<and> extends b b' \<and> (ready_ok b \<longrightarrow> ready_ok b') \<and>
           (\<exists>hs. trace b' = trace b @ map (Pair k) hs \<and>
              (\<exists>n. hs = take n (takeWhile (\<lambda>e. e \<noteq> QUIT) q)) \<and>
              (c \<noteq> Crashed \<longrightarrow> hs = takeWhile (\<lambda>e. e \<noteq> QUIT) q) \<and>
              (c = Running \<longrightarrow> q' = [] \<and> QUIT \<notin> set q) \<and>
              (c = Stopped \<longrightarrow> QUIT \<in> set q))"
  using assms
proof (induction q arbitrary: b)
  case Nil
  have "[] = take 0 (takeWhile (\<lambda>e. e \<noteq> QUIT) ([] :: 'a ev list))" by simp
  with Nil show ?case by (simp add: extends_refl)
next
  case (Cons e q)
  show ?case
  proof (cases "e = QUIT")
    case True
    with Cons.prems show ?thesis by (simp add: extends_refl)
  next
    case False
    let ?b1 = "b\<lparr>trace := trace b @ [(k, e)]\<rparr>"
    from Cons.prems have t1: "topics_ok ?b1" by (simp add: topics_ok_def)
    have e1: "extends b ?b1" by (simp add: extends_def)
    have r1: "ready_ok b \<longrightarrow> ready_ok ?b1" by (simp add: ready_ok_def)
    note k = pubs_keeps [OF t1, of "f e"]
    show ?thesis
    proof (cases "pubs (f e) ?b1")
      case (Inl x)
      obtain err b' where x: "x = (err, b')" by (cases x)
      from k Inl x have a: "topics_ok b'" and b: "extends ?b1 b'"
        and c: "trace b' = trace b @ [(k, e)]" and d: "ready_ok ?b1 \<longrightarrow> ready_ok b'" by auto
      from False have "[e] = take 1 (takeWhile (\<lambda>e. e \<noteq> QUIT) (e # q))" by simp
      then have "\<exists>n. [e] = take n (takeWhile (\<lambda>e. e \<noteq> QUIT) (e # q))" ..
      with c have h: "\<exists>hs. trace b' = trace b @ map (Pair k) hs \<and>
          (\<exists>n. hs = take n (takeWhile (\<lambda>e. e \<noteq> QUIT) (e # q)))"
        by (intro exI [of _ "[e]"]) simp
      from e1 b have "extends b b'" by (rule extends_trans)
      with a d r1 h False Inl x show ?thesis by simp
    next
      case (Inr b')
      from k Inr have t': "topics_ok b'" and e': "extends ?b1 b'"
        and tr': "trace b' = trace b @ [(k, e)]" and r': "ready_ok ?b1 \<longrightarrow> ready_ok b'" by auto
      obtain q' c b'' where res: "topic_listener k f q b' = (q', c, b'')"
        by (cases "topic_listener k f q b'")
      from Cons.IH [OF t'] res have
        IH0: "topics_ok b'' \<and> extends b' b'' \<and> (ready_ok b' \<longrightarrow> ready_ok b'') \<and>
           (\<exists>hs. trace b'' = trace b' @ map (Pair k) hs \<and>
              (\<exists>n. hs = take n (takeWhile (\<lambda>e. e \<noteq> QUIT) q)) \<and>
              (c \<noteq> Crashed \<longrightarrow> hs = takeWhile (\<lambda>e. e \<noteq> QUIT) q) \<and>
              (c = Running \<longrightarrow> q' = [] \<and> QUIT \<notin> set q) \<and>
              (c = Stopped \<longrightarrow> QUIT \<in> set q))"
        by simp
      then obtain hs where
        IH: "topics_ok b''" "extends b' b''" "ready_ok b' \<longrightarrow> ready_ok b''"
          "trace b'' = trace b' @ map (Pair k) hs"
          "\<exists>n. hs = take n (takeWhile (\<lambda>e. e \<noteq> QUIT) q)"
          "c \<noteq> Crashed \<longrightarrow> hs = takeWhile (\<lambda>e. e \<noteq> QUIT) q"
          "c = Running \<longrightarrow> q' = [] \<and> QUIT \<notin> set q"
          "c = Stopped \<longrightarrow> QUIT \<in> set q"
        by blast
      from IH(5) obtain n where n: "hs = take n (takeWhile (\<lambda>e. e \<noteq> QUIT) q)" ..
      from IH(4) tr' have 1: "trace b'' = trace b @ map (Pair k) (e # hs)" by simp
      from n False have "e # hs = take (Suc n) (takeWhile (\<lambda>e. e \<noteq> QUIT) (e # q))" by simp
      then have 2: "\<exists>n. e # hs = take n (takeWhile (\<lambda>e. e \<noteq> QUIT) (e # q))" ..
      from IH(6) False have 3: "c \<noteq> Crashed \<longrightarrow> e # hs = takeWhile (\<lambda>e. e \<noteq> QUIT) (e # q)" by simp
      from IH(7,8) False have 4: "c = Running \<longrightarrow> q' = [] \<and> QUIT \<notin> set (e # q)"
        "c = Stopped \<longrightarrow> QUIT \<in> set (e # q)" by simp_all
      from 1 2 3 4 have h: "\<exists>hs. trace b'' = trace b @ map (Pair k) hs \<and>
              (\<exists>n. hs = take n (takeWhile (\<lambda>e. e \<noteq> QUIT) (e # q))) \<and>
              (c \<noteq> Crashed \<longrightarrow> hs = takeWhile (\<lambda>e. e \<noteq> QUIT) (e # q)) \<and>
              (c = Running \<longrightarrow> q' = [] \<and> QUIT \<notin> set (e # q)) \<and>
              (c = Stopped \<longrightarrow> QUIT \<in> set (e # q))"
        by (intro exI [of _ "e # hs"]) blast
      have "extends b b''" using e1 e' IH(2) by (blast intro: extends_trans)
      with h False Inr res IH(1,3) r1 r' show ?thesis by simp
    qed
  qed
qed





















lemma handled_append:
  "trace b' = trace b @ map (Pair k') hs \<Longrightarrow>
   handled k b' = handled k b @ (if k' = k then hs else [])"
  by (simp add: handled_def filter_map o_def)

lemma handled_same: "trace b' = trace b \<Longrightarrow> handled k b' = handled k b"
  by (simp add: handled_def)

lemma takeWhile_all: "QUIT \<notin> set q \<Longrightarrow> takeWhile (\<lambda>e. e \<noteq> QUIT) q = q"
  by (induction q) auto


text \<open>
  What the turn of a task does to a subscription: a delivery puts its object at the end
  of the queue; the consumer of the subscription handles the queue up to \<open>QUIT\<close>, or up
  to an exception of the handler; every other task leaves it as it is.
\<close>

lemma exec_effect:
  assumes t: "topics_ok b" and sb: "subs b k = Some sb"
  shows "\<exists>sb1 hs. subs (exec x b) k = Some sb1 \<and> func sb1 = func sb \<and>
           handled k (exec x b) = handled k b @ hs \<and>
           (sb1 = sb\<lparr>queue := queue sb @ deliveries k [x]\<rparr> \<and> hs = [] \<and>
              (x = Listener (fst k) (snd k) \<longrightarrow> consumer sb \<noteq> Running) \<or>
            x = Listener (fst k) (snd k) \<and> consumer sb = Running \<and>
              (\<exists>n. hs = take n (takeWhile (\<lambda>e. e \<noteq> QUIT) (queue sb))) \<and>
              (consumer sb1 = Running \<longrightarrow>
                 queue sb1 = [] \<and> QUIT \<notin> set (queue sb) \<and> hs = queue sb) \<and>
              (consumer sb1 = Stopped \<longrightarrow>
                 QUIT \<in> set (queue sb) \<and> hs = takeWhile (\<lambda>e. e \<noteq> QUIT) (queue sb)))"
proof -
  have same: "\<exists>sb1 hs. subs b1 k = Some sb1 \<and> func sb1 = func sb \<and>
           handled k b1 = handled k b @ hs \<and>
           (sb1 = sb\<lparr>queue := queue sb @ deliveries k [x]\<rparr> \<and> hs = [] \<and>
              (x = Listener (fst k) (snd k) \<longrightarrow> consumer sb \<noteq> Running) \<or>
            x = Listener (fst k) (snd k) \<and> consumer sb = Running \<and>
              (\<exists>n. hs = take n (takeWhile (\<lambda>e. e \<noteq> QUIT) (queue sb))) \<and>
              (consumer sb1 = Running \<longrightarrow>
                 queue sb1 = [] \<and> QUIT \<notin> set (queue sb) \<and> hs = queue sb) \<and>
              (consumer sb1 = Stopped \<longrightarrow>
                 QUIT \<in> set (queue sb) \<and> hs = takeWhile (\<lambda>e. e \<noteq> QUIT) (queue sb)))"
    if "subs b1 k = Some sb" and "handled k b1 = handled k b" and "deliveries k [x] = []"
      and "x = Listener (fst k) (snd k) \<longrightarrow> consumer sb \<noteq> Running" for b1
    using that by (intro exI [of _ sb] exI [of _ "[]"]) simp
  show ?thesis
  proof (cases x)
    case (OnPub tid s' t' e)
    have h: "handled k (exec x b) = handled k b"
      unfolding OnPub by (rule handled_same) (simp add: finish_def on_pub_def split: option.splits)
    show ?thesis
    proof (cases "k = (s', t')")
      case True
      with sb OnPub have "subs (exec x b) k = Some (sb\<lparr>queue := queue sb @ [e]\<rparr>)"
        by (simp add: finish_def on_pub_def)
      moreover from True OnPub have "deliveries k [x] = [e]" by simp
      ultimately show ?thesis using h OnPub
        by (intro exI [of _ "sb\<lparr>queue := queue sb @ [e]\<rparr>"] exI [of _ "[]"]) simp
    next
      case False
      with sb OnPub have "subs (exec x b) k = Some sb"
        by (simp add: finish_def on_pub_def split: option.splits)
      moreover from False OnPub have "deliveries k [x] = []" by simp
      ultimately show ?thesis using h OnPub by (intro same) simp_all
    qed
  next
    case (Listener s' t')
    then have d: "deliveries k [x] = []" by simp
    show ?thesis
    proof (cases "subs b (s', t')")
      case None
      with Listener sb d show ?thesis by (intro same) auto
    next
      case (Some sb')
      show ?thesis
      proof (cases "consumer sb' = Running")
        case False
        with Listener Some sb d show ?thesis by (intro same) auto
      next
        case True
        obtain q' c b' where res: "topic_listener (s', t') (func sb') (queue sb') b = (q', c, b')"
          by (cases "topic_listener (s', t') (func sb') (queue sb') b")
        with topic_listener_keeps [OF t, where k = "(s', t')" and f = "func sb'" and q = "queue sb'"]
        have "extends b b' \<and>
           (\<exists>hs. trace b' = trace b @ map (Pair (s', t')) hs \<and>
              (\<exists>n. hs = take n (takeWhile (\<lambda>e. e \<noteq> QUIT) (queue sb'))) \<and>
              (c \<noteq> Crashed \<longrightarrow> hs = takeWhile (\<lambda>e. e \<noteq> QUIT) (queue sb')) \<and>
              (c = Running \<longrightarrow> q' = [] \<and> QUIT \<notin> set (queue sb')) \<and>
              (c = Stopped \<longrightarrow> QUIT \<in> set (queue sb')))"
          by simp
        then obtain hs where e: "extends b b'"
          and tr: "trace b' = trace b @ map (Pair (s', t')) hs"
          and hs: "\<exists>n. hs = take n (takeWhile (\<lambda>e. e \<noteq> QUIT) (queue sb'))"
            "c \<noteq> Crashed \<longrightarrow> hs = takeWhile (\<lambda>e. e \<noteq> QUIT) (queue sb')"
            "c = Running \<longrightarrow> q' = [] \<and> QUIT \<notin> set (queue sb')"
            "c = Stopped \<longrightarrow> QUIT \<in> set (queue sb')"
          by blast
        from e have s': "subs b' = subs b" by (simp add: extends_def)
        let ?b1 = "b'\<lparr>subs := (subs b')((s', t') \<mapsto> sb'\<lparr>queue := q', consumer := c\<rparr>)\<rparr>"
        from Listener Some True res have x: "exec x b = ?b1" by simp
        have "trace ?b1 = trace b @ map (Pair (s', t')) hs" using tr by simp
        from handled_append [OF this, of k]
        have h: "handled k ?b1 = handled k b @ (if (s', t') = k then hs else [])" .
        show ?thesis
        proof (cases "k = (s', t')")
          case False
          with s' sb have "subs ?b1 k = Some sb" by simp
          moreover from h False have "handled k ?b1 = handled k b" by auto
          ultimately show ?thesis unfolding x using d False Listener by (intro same) auto
        next
          case k: True
          with Some sb have eq: "sb' = sb" by simp
          from k have 1: "subs ?b1 k = Some (sb\<lparr>queue := q', consumer := c\<rparr>)" by (simp add: eq)
          from h k have 2: "handled k ?b1 = handled k b @ hs" by simp
          from k Listener have 3: "x = Listener (fst k) (snd k)" by simp
          from hs(2,3) have 4: "c = Running \<longrightarrow> q' = [] \<and> QUIT \<notin> set (queue sb) \<and> hs = queue sb"
            by (auto simp: eq takeWhile_all)
          from hs(2,4) have 5: "c = Stopped \<longrightarrow>
              QUIT \<in> set (queue sb) \<and> hs = takeWhile (\<lambda>e. e \<noteq> QUIT) (queue sb)"
            by (simp add: eq)
          from hs(1) have 6: "\<exists>n. hs = take n (takeWhile (\<lambda>e. e \<noteq> QUIT) (queue sb))"
            by (simp add: eq)
          from True have 7: "consumer sb = Running" by (simp add: eq)
          from 1 2 3 4 5 6 7 show ?thesis unfolding x
            by (intro exI [of _ "sb\<lparr>queue := q', consumer := c\<rparr>"] exI [of _ hs]) simp
        qed
      qed
    qed
  next
    case (Await_start i)
    with sb show ?thesis
      by (intro same handled_same)
         (simp_all add: await_tasks_end_def set_done_def del_awaiter_def wait_tasks_def Let_def
            split: option.splits)
  next
    case (On_completion i)
    with sb show ?thesis
      by (intro same handled_same) (simp_all add: on_completion_def Let_def)
  next
    case (Await_resume i)
    with sb show ?thesis
      by (intro same handled_same)
         (simp_all add: await_tasks_end_def set_done_def del_awaiter_def Let_def
            split: option.splits)
  next
    case Drain
    with sb show ?thesis
      by (intro same handled_same) (simp_all add: drain_loop_def split: option.splits)
  qed
qed

lemma begins_append [simp]: "begins xs (xs @ ys)"
  by (simp add: begins_def)

lemma begins_refl [simp]: "begins xs xs"
  by (simp add: begins_def)

lemma begins_Nil [simp]: "begins [] ys"
  by (simp add: begins_def)

lemma begins_iff: "begins xs ys \<longleftrightarrow> (\<exists>zs. ys = xs @ zs)"
proof
  assume "begins xs ys"
  then have "ys = xs @ drop (length xs) ys"
    unfolding begins_def by (metis append_take_drop_id)
  then show "\<exists>zs. ys = xs @ zs" ..
next
  assume "\<exists>zs. ys = xs @ zs"
  then show "begins xs ys" by auto
qed


lemma begins_same_append [simp]: "begins (zs @ xs) (zs @ ys) = begins xs ys"
  by (simp add: begins_def)





lemma begins_take [simp]: "begins (take n xs) xs"
  unfolding begins_iff by (metis append_take_drop_id)







lemma step_effect:
  assumes t: "topics_ok b" and r: "ready b = x # r" and sb: "subs b k = Some sb"
  shows "\<exists>sb1 hs. subs (step b) k = Some sb1 \<and> func sb1 = func sb \<and>
           handled k (step b) = handled k b @ hs \<and>
           (sb1 = sb\<lparr>queue := queue sb @ deliveries k [x]\<rparr> \<and> hs = [] \<and>
              (x = Listener (fst k) (snd k) \<longrightarrow> consumer sb \<noteq> Running) \<or>
            x = Listener (fst k) (snd k) \<and> consumer sb = Running \<and>
              (\<exists>n. hs = take n (takeWhile (\<lambda>e. e \<noteq> QUIT) (queue sb))) \<and>
              (consumer sb1 = Running \<longrightarrow>
                 queue sb1 = [] \<and> QUIT \<notin> set (queue sb) \<and> hs = queue sb) \<and>
              (consumer sb1 = Stopped \<longrightarrow>
                 QUIT \<in> set (queue sb) \<and> hs = takeWhile (\<lambda>e. e \<noteq> QUIT) (queue sb)))"
proof -
  let ?b = "b\<lparr>ready := r\<rparr>"
  from t have 1: "topics_ok ?b" by (simp add: topics_ok_def)
  from sb have 2: "subs ?b k = Some sb" by simp
  have 3: "handled k ?b = handled k b" by (simp add: handled_def)
  from r have 4: "step b = exec x ?b" by (simp add: step_def)
  from exec_effect [OF 1 2, of x] show ?thesis unfolding 3 4 .
qed





lemma step_consumer:
  assumes t: "topics_ok b" and r: "ready b = x # r" and sb: "subs b k = Some sb"
    and c: "consumer sb \<noteq> Running"
  shows "\<exists>sb1. subs (step b) k = Some sb1 \<and> consumer sb1 = consumer sb"
  using step_effect [OF t r sb] c by auto


lemma step_idle: "ready b = [] \<Longrightarrow> step b = b"
  by (simp add: step_def)

lemma steps_idle: "ready b = [] \<Longrightarrow> steps n b = b"
  by (induction n) (simp_all add: step_idle)































end
